theory Spec2Isabelle
  imports Main "HOL-Library.Word" "HOL-Library.Multiset"
begin

unbundle bit_operations_syntax

section \<open>ELF data model (64-bit layout)\<close>

text \<open>
  The structures of \<^verbatim>\<open>elf.h\<close> that \<^verbatim>\<open>elf.cc\<close> reads, in the ELF64 layout:
  addresses, offsets and extended words are 64 bits, words 32 bits, halves 16 bits.
\<close>

type_synonym Addr = "64 word"
type_synonym Off = "64 word"
type_synonym Xword = "64 word"
type_synonym Word = "32 word"
type_synonym Half = "16 word"

record Phdr =
  p_type :: Word
  p_flags :: Word
  p_offset :: Off
  p_vaddr :: Addr
  p_paddr :: Addr
  p_filesz :: Xword
  p_memsz :: Xword
  p_align :: Xword

record Shdr =
  sh_name :: Word
  sh_type :: Word
  sh_flags :: Xword
  sh_addr :: Addr
  sh_offset :: Off
  sh_size :: Xword
  sh_link :: Word
  sh_info :: Word
  sh_addralign :: Xword
  sh_entsize :: Xword

record Sym =
  st_name :: Word
  st_info :: "8 word"
  st_other :: "8 word"
  st_shndx :: Half
  st_value :: Addr
  st_size :: Xword

record Nhdr =
  n_namesz :: Word
  n_descsz :: Word
  n_type :: Word

record Dyn =
  d_tag :: Xword
  d_val :: Xword

definition PT_LOAD :: Word where "PT_LOAD = 1"
definition PT_NOTE :: Word where "PT_NOTE = 4"
definition SHT_NULL :: Word where "SHT_NULL = 0"
definition SHT_PROGBITS :: Word where "SHT_PROGBITS = 1"
definition SHT_NOBITS :: Word where "SHT_NOBITS = 8"
definition SHF_ALLOC :: Xword where "SHF_ALLOC = 2"
definition SHN_UNDEF :: Half where "SHN_UNDEF = 0"
definition STN_UNDEF :: Word where "STN_UNDEF = 0"
definition STT_NOTYPE :: int where "STT_NOTYPE = 0"
definition GNU_BUILD_ID :: Word where "GNU_BUILD_ID = 3"

text \<open>
  Failures of the source as values: \<^verbatim>\<open>std::out_of_range\<close> thrown by \<^verbatim>\<open>at()\<close>, an
  exception of the Reader, a read outside an in-memory array, a division by zero, a write
  through a null pointer.
\<close>

datatype error = OutOfRange | IoError | BadIndex | DivideByZero | NullPointer

text \<open>A section view: the header and the name resolved by the constructor.\<close>

record Section =
  shdr :: Shdr
  section_name :: string

text \<open>
  The symbol \<^verbatim>\<open>undef()\<close>: every byte zero, \<^verbatim>\<open>st_shndx = SHN_UNDEF\<close>.
\<close>

definition undef :: Sym where
  "undef = \<lparr>st_name = 0, st_info = 0, st_other = 0, st_shndx = SHN_UNDEF,
            st_value = 0, st_size = 0\<rparr>"

text \<open>
  A symbol table (\<^verbatim>\<open>SymbolSection\<close>): the entries of the section in order and the
  bytes of the linked string table.
\<close>

record SymbolSection =
  syms :: "Sym list"
  strings :: string

text \<open>
  The GNU hash accelerator: the header of \<^verbatim>\<open>.gnu_hash\<close>, then the three arrays the
  lookup reads through \<^verbatim>\<open>bloomoff\<close>, \<^verbatim>\<open>bucketoff\<close> and \<^verbatim>\<open>chainoff\<close>, the
  dynamic symbols and their string table.
\<close>

record GnuHash =
  nbuckets :: Word
  symoffset :: Word
  bloom_size :: Word
  bloom_shift :: Word
  bloom :: "Off list"
  gnu_buckets :: "Word list"
  gnu_chains :: "Word list"
  gnu_syms :: "Sym list"
  gnu_strings :: string

text \<open>
  The SysV hash accelerator: \<^verbatim>\<open>data\<close> holds the words of \<^verbatim>\<open>.hash\<close>;
  \<^verbatim>\<open>nbucket = data[0]\<close>, \<^verbatim>\<open>nchain = data[1]\<close>, \<^verbatim>\<open>buckets = data + 2\<close>,
  \<^verbatim>\<open>chains = buckets + nbucket\<close>.
\<close>

record SymHash =
  data :: "Word list"
  sysv_syms :: "Sym list"
  sysv_strings :: string

text \<open>
  An opened image. A pointer to a program header (\<^verbatim>\<open>lastSegmentForAddress\<close>) is the
  index of the header in the \<^verbatim>\<open>PT_LOAD\<close> group; the companion and the embedded
  \<^verbatim>\<open>.gnu_debugdata\<close> image are owned objects. The symbol tables and the hash
  accelerators are the lazily built ones, as built.
\<close>

datatype Object = Object
  (io_name: string)
  (io: string)
  (programHeaders: "Word \<rightharpoonup> Phdr list")
  (sectionHeaders: "Section list")
  (namedSection: "string \<rightharpoonup> nat")
  (dynamic: "Xword \<rightharpoonup> Dyn list")
  (debugLoaded: bool)
  (debugObject: "Object option")
  (debugData: "Object option")
  (lastSegmentForAddress: "nat option")
  (debugSymbols: SymbolSection)
  (dynamicSymbols: SymbolSection)
  (gnu_hash_table: "GnuHash option")
  (hash_table: "SymHash option")

section \<open>Program headers\<close>

text \<open>
  The constructor's loop \<^verbatim>\<open>programHeaders[hdr.p_type].push_back(hdr)\<close> over the headers
  in file order, then \<^verbatim>\<open>std::sort\<close> of every group by \<^verbatim>\<open>p_vaddr\<close>. \<^verbatim>\<open>std::sort\<close>
  is the library's and a parameter here: what the standard fixes of it is that the sorted
  range is a permutation of the range, ascending under the comparison; the order of
  headers with equal \<^verbatim>\<open>p_vaddr\<close> is left open.
\<close>

definition push_back_phdr :: "(Word \<rightharpoonup> Phdr list) \<Rightarrow> Phdr \<Rightarrow> (Word \<rightharpoonup> Phdr list)" where
  "push_back_phdr m hdr =
     m(p_type hdr \<mapsto> (case m (p_type hdr) of None \<Rightarrow> [] | Some l \<Rightarrow> l) @ [hdr])"

definition load_programHeaders ::
  "(Phdr list \<Rightarrow> Phdr list) \<Rightarrow> Phdr list \<Rightarrow> (Word \<rightharpoonup> Phdr list)" where
  "load_programHeaders std_sort hdrs =
     (let m = foldl push_back_phdr Map.empty hdrs
      in (\<lambda>t. map_option std_sort (m t)))"

definition sorts_by_vaddr :: "(Phdr list \<Rightarrow> Phdr list) \<Rightarrow> bool" where
  "sorts_by_vaddr std_sort \<longleftrightarrow>
     (\<forall>xs. mset (std_sort xs) = mset xs \<and> sorted (map p_vaddr (std_sort xs)))"

text \<open>
  \<^verbatim>\<open>Object::endVA\<close>: \<^verbatim>\<open>programHeaders.at(PT_LOAD)\<close> throws when the image has no
  \<^verbatim>\<open>PT_LOAD\<close> header. A group, once created, is never empty; the index \<^verbatim>\<open>size() - 1\<close>
  of an empty group would be outside the vector.
\<close>

definition endVA :: "Object \<Rightarrow> error + Addr" where
  "endVA obj =
     (case programHeaders obj PT_LOAD of
        None \<Rightarrow> Inl OutOfRange
      | Some loadable \<Rightarrow>
          if loadable = [] then Inl BadIndex
          else (let l = loadable ! (length loadable - 1)
                in Inr (p_vaddr l + p_memsz l)))"

text \<open>\<^verbatim>\<open>Object::getSegments\<close>: the group of a type, or the empty static group.\<close>

definition getSegments :: "Object \<Rightarrow> Word \<Rightarrow> Phdr list" where
  "getSegments obj t = (case programHeaders obj t of None \<Rightarrow> [] | Some l \<Rightarrow> l)"

text \<open>
  \<^verbatim>\<open>std::lower_bound\<close> as the standard library implements it: halving the range
  \<^verbatim>\<open>[first, first + len)\<close>; the predicate is the comparison with the searched value
  already applied.
\<close>

function lower_bound :: "'a list \<Rightarrow> ('a \<Rightarrow> bool) \<Rightarrow> nat \<Rightarrow> nat \<Rightarrow> nat" where
  "lower_bound xs cmp first len =
     (if 0 < len then
        (let half = len div 2; middle = first + half
         in if cmp (xs ! middle)
            then lower_bound xs cmp (middle + 1) (len - half - 1)
            else lower_bound xs cmp first half)
      else first)"
  by pat_completeness auto
termination
  by (relation "measure (\<lambda>(xs, cmp, first, len). len)") auto

declare lower_bound.simps [simp del]

fun set_lastSegmentForAddress :: "nat option \<Rightarrow> Object \<Rightarrow> Object" where
  "set_lastSegmentForAddress p (Object n i ph sh ns dn dl dobj dd l ds dy g h) =
     Object n i ph sh ns dn dl dobj dd p ds dy g h"

text \<open>
  \<^verbatim>\<open>Object::getSegmentForAddress\<close>: the one-slot cache, then the binary search. The
  result is the pointer (index into the \<^verbatim>\<open>PT_LOAD\<close> group) or null, and the object
  with its cache updated.
\<close>

definition cache_hit :: "Object \<Rightarrow> Off \<Rightarrow> bool" where
  "cache_hit obj a =
     (case lastSegmentForAddress obj of
        None \<Rightarrow> False
      | Some i \<Rightarrow>
          (let l = getSegments obj PT_LOAD ! i
           in p_vaddr l \<le> a \<and> p_vaddr l + p_memsz l > a))"

definition getSegmentForAddress :: "Object \<Rightarrow> Off \<Rightarrow> nat option \<times> Object" where
  "getSegmentForAddress obj a =
     (if cache_hit obj a then (lastSegmentForAddress obj, obj)
      else
        (let hdrs = getSegments obj PT_LOAD;
             pos = lower_bound hdrs (\<lambda>header. p_vaddr header + p_memsz header \<le> a)
                     0 (length hdrs)
         in if pos \<noteq> length hdrs \<and> p_vaddr (hdrs ! pos) \<le> a
            then (Some pos, set_lastSegmentForAddress (Some pos) obj)
            else (None, obj)))"

text \<open>Coverage as the source tests it, in 64-bit arithmetic.\<close>

definition covers :: "Phdr \<Rightarrow> Off \<Rightarrow> bool" where
  "covers seg a \<longleftrightarrow> p_vaddr seg \<le> a \<and> a < p_vaddr seg + p_memsz seg"

text \<open>
  Segments that partition the address space: each ends, without wrapping around
  \<open>2 ^ 64\<close>, at or before the start of the next.
\<close>

fun nonoverlapping :: "Phdr list \<Rightarrow> bool" where
  "nonoverlapping [] = True"
| "nonoverlapping [h] = (unat (p_vaddr h) + unat (p_memsz h) < 2 ^ 64)"
| "nonoverlapping (h # g # rest) =
     (unat (p_vaddr h) + unat (p_memsz h) \<le> unat (p_vaddr g) \<and> nonoverlapping (g # rest))"

text \<open>The cache is null or points into the \<^verbatim>\<open>PT_LOAD\<close> group.\<close>

definition cache_ok :: "Object \<Rightarrow> bool" where
  "cache_ok obj =
     (case lastSegmentForAddress obj of
        None \<Rightarrow> True
      | Some i \<Rightarrow> i < length (getSegments obj PT_LOAD))"

text \<open>
  The precondition of \<^verbatim>\<open>std::lower_bound\<close>: the elements for which the predicate
  holds come first.
\<close>

definition partitioned :: "'a list \<Rightarrow> ('a \<Rightarrow> bool) \<Rightarrow> bool" where
  "partitioned xs cmp \<longleftrightarrow> (\<forall>i j. i < j \<and> j < length xs \<and> cmp (xs ! j) \<longrightarrow> cmp (xs ! i))"


section \<open>Section lookup\<close>

text \<open>
  Modelled from the spec: the boolean conversion of a section view, declared with the
  \<^verbatim>\<open>Section\<close> class outside \<^verbatim>\<open>elf.cc\<close>. The null section converts to false: a
  section is true when its type is not \<^verbatim>\<open>SHT_NULL\<close>.
\<close>

definition Section_bool :: "Section \<Rightarrow> bool" where
  "Section_bool s \<longleftrightarrow> sh_type (shdr s) \<noteq> SHT_NULL"

text \<open>
  The three-iterator \<^verbatim>\<open>std::equal(first1, last1, first2)\<close>: the second range is read
  as far as the first one reaches. \<^verbatim>\<open>getSection\<close> calls it on the reversed suffix
  \<^verbatim>\<open>".dwo"\<close> and the reversed name; for a name that is a proper suffix of \<^verbatim>\<open>".dwo"\<close>
  the comparison reads the byte stored before the name, where the string object keeps
  its length, and the model takes that byte as different.
\<close>

fun std_equal :: "string \<Rightarrow> string \<Rightarrow> bool" where
  "std_equal [] ys = True"
| "std_equal (x # xs) [] = False"
| "std_equal (x # xs) (y # ys) = (x = y \<and> std_equal xs ys)"

definition dwosuffix :: string where
  "dwosuffix = ''.dwo''"

definition ends_with_dwo :: "string \<Rightarrow> bool" where
  "ends_with_dwo name = std_equal (rev dwosuffix) (rev name)"

text \<open>\<^verbatim>\<open>name.rfind(".debug_", 0) == 0\<close>: the name starts with \<^verbatim>\<open>".debug_"\<close>.\<close>

definition starts_with_debug :: "string \<Rightarrow> bool" where
  "starts_with_debug name \<longleftrightarrow> take 7 name = ''.debug_''"

text \<open>
  The constructor's loop over the section headers: \<^verbatim>\<open>namedSection[name] = secid++\<close>;
  of two sections with one name the later one stays registered.
\<close>

definition load_namedSection :: "Section list \<Rightarrow> (string \<rightharpoonup> nat)" where
  "load_namedSection secs =
     foldl (\<lambda>m (secid, h). m(section_name h \<mapsto> secid)) Map.empty (enumerate 0 secs)"

text \<open>
  The first step of \<^verbatim>\<open>getSection\<close>: the section registered under the name, when its
  type is the requested one or the request is \<^verbatim>\<open>SHT_NULL\<close>.
\<close>

definition exact_match :: "Object \<Rightarrow> string \<Rightarrow> Word \<Rightarrow> Section option" where
  "exact_match obj name type =
     (case namedSection obj name of
        None \<Rightarrow> None
      | Some s \<Rightarrow>
          (let ref = sectionHeaders obj ! s
           in if sh_type (shdr ref) = type \<or> type = SHT_NULL then Some ref else None))"

text \<open>
  \<^verbatim>\<open>Object::getSection(name, type)\<close>: the exact match, then for a \<^verbatim>\<open>.debug_\<close> name
  the lookup of \<^verbatim>\<open>".z" + name.substr(1)\<close> when it converts to true, then for a name
  without the suffix the lookup of \<^verbatim>\<open>name + ".dwo"\<close>, then section 0.
\<close>

function getSection :: "Object \<Rightarrow> string \<Rightarrow> Word \<Rightarrow> Section" where
  "getSection obj name type =
     (case exact_match obj name type of
        Some ref \<Rightarrow> ref
      | None \<Rightarrow>
          (case (if starts_with_debug name
                 then (let compressed = getSection obj (''.z'' @ drop 1 name) type
                       in if Section_bool compressed then Some compressed else None)
                 else None) of
             Some compressed \<Rightarrow> compressed
           | None \<Rightarrow>
               if \<not> ends_with_dwo name then getSection obj (name @ ''.dwo'') type
               else sectionHeaders obj ! 0))"
  by pat_completeness auto
termination
proof (relation "measure (\<lambda>(obj, name, type).
         (if starts_with_debug name then 1 else 0) + (if ends_with_dwo name then 0 else 2))")
  show "wf (measure (\<lambda>(obj, name, type).
         (if starts_with_debug name then 1 else 0) + (if ends_with_dwo name then 0 else 2)))"
    by simp
next
  fix obj :: Object and name :: string and type :: Word
  assume s: "starts_with_debug name"
  have A: "length xs \<le> length ys \<Longrightarrow> std_equal xs (ys @ zs) = std_equal xs ys" for xs ys zs
    by (induction xs ys rule: std_equal.induct) auto
  define rest where "rest = drop 7 name"
  have n: "name = ''.debug_'' @ rest"
    using s append_take_drop_id[of 7 name] by (simp add: starts_with_debug_def rest_def)
  have z: "''.z'' @ drop 1 name = ''.zdebug_'' @ rest" by (simp add: n)
  have nz: "\<not> starts_with_debug (''.z'' @ drop 1 name)"
    unfolding z by (simp add: starts_with_debug_def)
  have e1: "ends_with_dwo name = std_equal (rev dwosuffix) (rev rest @ ''_gubed'')"
    using A[of "rev dwosuffix" "rev rest @ ''_gubed''" "''.''"]
    by (simp add: n ends_with_dwo_def dwosuffix_def)
  have e2: "ends_with_dwo (''.z'' @ drop 1 name) = std_equal (rev dwosuffix) (rev rest @ ''_gubed'')"
    unfolding z using A[of "rev dwosuffix" "rev rest @ ''_gubed''" "''z.''"]
    by (simp add: ends_with_dwo_def dwosuffix_def)
  show "((obj, ''.z'' @ drop 1 name, type), (obj, name, type))
        \<in> measure (\<lambda>(obj, name, type).
         (if starts_with_debug name then 1 else 0) + (if ends_with_dwo name then 0 else 2))"
    using s nz e1 e2 by simp
next
  fix obj :: Object and name :: string and type :: Word
  assume "\<not> ends_with_dwo name"
  moreover have "ends_with_dwo (name @ ''.dwo'')"
    by (simp add: ends_with_dwo_def dwosuffix_def)
  ultimately show "((obj, name @ ''.dwo'', type), (obj, name, type))
        \<in> measure (\<lambda>(obj, name, type).
         (if starts_with_debug name then 1 else 0) + (if ends_with_dwo name then 0 else 2))"
    by simp
qed

declare getSection.simps [simp del]

text \<open>
  The names \<^verbatim>\<open>getSection(name, type)\<close> looks up, in the order of the lookups: the name,
  the \<^verbatim>\<open>.z\<close> variant of a \<^verbatim>\<open>.debug_\<close> name (then that variant with \<^verbatim>\<open>.dwo\<close>
  appended), the name with \<^verbatim>\<open>.dwo\<close> appended.
\<close>

definition zname :: "string \<Rightarrow> string" where
  "zname name = ''.z'' @ drop 1 name"

definition lookup_order :: "string \<Rightarrow> string list" where
  "lookup_order name =
     [name]
     @ (if starts_with_debug name
        then [zname name] @ (if ends_with_dwo name then [] else [zname name @ ''.dwo''])
        else [])
     @ (if ends_with_dwo name then [] else [name @ ''.dwo''])"

text \<open>
  The exact match in terms of the section header table: of the sections that carry the
  name, the last one in the table, when its type is the requested one or the request is
  \<^verbatim>\<open>SHT_NULL\<close>.
\<close>

definition exact_section :: "Section list \<Rightarrow> string \<Rightarrow> Word \<Rightarrow> Section option" where
  "exact_section secs name type =
     (if filter (\<lambda>s. section_name s = name) secs = [] then None
      else (let ref = last (filter (\<lambda>s. section_name s = name) secs)
            in if sh_type (shdr ref) = type \<or> type = SHT_NULL then Some ref else None))"

text \<open>
  The match as the specification words it: a section whose name is the name and whose
  type is the requested one (any type when the request is \<^verbatim>\<open>SHT_NULL\<close>), the first
  such section of the table.
\<close>

definition named_and_typed :: "Section list \<Rightarrow> string \<Rightarrow> Word \<Rightarrow> Section option" where
  "named_and_typed secs name type =
     find (\<lambda>s. section_name s = name \<and> (sh_type (shdr s) = type \<or> type = SHT_NULL)) secs"

text \<open>The lookup of a single name: its exact match, or section 0.\<close>

definition leaf :: "Object \<Rightarrow> string \<Rightarrow> Word \<Rightarrow> Section" where
  "leaf obj n type = (case exact_match obj n type of Some s \<Rightarrow> s | None \<Rightarrow> sectionHeaders obj ! 0)"


section \<open>Hash-accelerated symbol lookup\<close>

text \<open>
  \<^verbatim>\<open>elf_hash\<close> of the System V ABI as \<^verbatim>\<open>elf.cc\<close> writes it. The loop variable is a
  \<^verbatim>\<open>char\<close>, signed on the target, so a byte is sign-extended before it is added to
  the 32-bit accumulator.
\<close>

definition elf_hash_step :: "Word \<Rightarrow> char \<Rightarrow> Word" where
  "elf_hash_step h c =
     (let h1 = push_bit 4 h + scast (of_char c :: 8 word);
          g = h1 AND 0xf0000000;
          h2 = (if g \<noteq> 0 then h1 XOR drop_bit 24 g else h1)
      in h2 AND NOT g)"

definition elf_hash :: "string \<Rightarrow> Word" where
  "elf_hash str = foldl elf_hash_step 0 str"

text \<open>
  A \<^verbatim>\<open>const char *\<close> argument: the characters up to the first NUL.
\<close>

definition c_str :: "string \<Rightarrow> string" where
  "c_str s = takeWhile (\<lambda>c. c \<noteq> CHR 0x00) s"

text \<open>
  \<^verbatim>\<open>gnu_hash\<close>: \<^verbatim>\<open>h = (h << 5) + h + *name++\<close> over the bytes, read as
  \<^verbatim>\<open>uint8_t\<close>, up to the terminating NUL.
\<close>

definition gnu_hash :: "string \<Rightarrow> Word" where
  "gnu_hash s = foldl (\<lambda>h c. push_bit 5 h + h + ucast (of_char c :: 8 word)) 5381 (c_str s)"

text \<open>
  Modelled from the spec: \<^verbatim>\<open>readString(offset)\<close> of the Reader capability, the
  null-terminated string at an offset of a byte range.
\<close>

definition readString :: "string \<Rightarrow> nat \<Rightarrow> string" where
  "readString bytes off = takeWhile (\<lambda>c. c \<noteq> CHR 0x00) (drop off bytes)"

text \<open>
  \<^verbatim>\<open>readObj\<close> on an array of the hash section or of the symbol table: an element, or
  the Reader's failure past the end.
\<close>

definition readObj :: "'a list \<Rightarrow> nat \<Rightarrow> 'a option" where
  "readObj xs k = (if k < length xs then Some (xs ! k) else None)"

text \<open>\<^verbatim>\<open>ELF_BITS\<close>, the width of a Bloom word: 64 in the ELF64 layout.\<close>

definition ELF_BITS :: nat where
  "ELF_BITS = 64"

text \<open>
  The loop of \<^verbatim>\<open>GnuHash::findSymbol\<close> from a symbol index on. The index only grows
  and the read of the symbol table fails past its end, which bounds the loop; the
  32-bit index does not wrap in a table the Reader can hold.
\<close>

function gnu_chain_walk :: "GnuHash \<Rightarrow> string \<Rightarrow> Word \<Rightarrow> nat \<Rightarrow> error + (nat \<times> Sym)" where
  "gnu_chain_walk g name symhash idx =
     (case readObj (gnu_syms g) idx of
        None \<Rightarrow> Inl IoError
      | Some symb \<Rightarrow>
          (case readObj (gnu_chains g) (idx - unat (symoffset g)) of
             None \<Rightarrow> Inl IoError
           | Some chainhash \<Rightarrow>
               if (chainhash OR 1) = (symhash OR 1)
                  \<and> readString (gnu_strings g) (unat (st_name symb)) = c_str name
               then Inr (idx, symb)
               else if chainhash AND 1 \<noteq> 0 then Inr (0, undef)
               else gnu_chain_walk g name symhash (idx + 1)))"
  by pat_completeness auto
termination
  by (relation "measure (\<lambda>(g, name, symhash, idx). length (gnu_syms g) - idx)")
     (auto simp: readObj_def split: if_splits)

declare gnu_chain_walk.simps [simp del]

text \<open>
  \<^verbatim>\<open>GnuHash::findSymbol\<close>: the Bloom filter, the bucket, the chain. A table with
  \<^verbatim>\<open>bloom_size\<close> or \<^verbatim>\<open>nbuckets\<close> zero divides by zero. The shift of the 32-bit hash by
  \<^verbatim>\<open>bloom_shift\<close> is the shift of the target, whose count is taken modulo 32.
\<close>

definition bloom_mask :: "GnuHash \<Rightarrow> Word \<Rightarrow> Off" where
  "bloom_mask g symhash =
     push_bit (unat symhash mod ELF_BITS) 1
     OR push_bit (unat (drop_bit (unat (bloom_shift g) mod 32) symhash) mod ELF_BITS) 1"

definition GnuHash_findSymbol :: "GnuHash \<Rightarrow> string \<Rightarrow> error + (nat \<times> Sym)" where
  "GnuHash_findSymbol g name =
     (let symhash = gnu_hash name
      in if bloom_size g = 0 then Inl DivideByZero
         else
           (case readObj (bloom g) ((unat symhash div ELF_BITS) mod unat (bloom_size g)) of
              None \<Rightarrow> Inl IoError
            | Some bloomword \<Rightarrow>
                if bloomword AND bloom_mask g symhash \<noteq> bloom_mask g symhash
                then Inr (0, undef)
                else if nbuckets g = 0 then Inl DivideByZero
                else
                  (case readObj (gnu_buckets g) (unat symhash mod unat (nbuckets g)) of
                     None \<Rightarrow> Inl IoError
                   | Some idx \<Rightarrow>
                       if idx < symoffset g then Inr (0, undef)
                       else gnu_chain_walk g name symhash (unat idx))))"

text \<open>
  The SysV table in memory: \<^verbatim>\<open>nbucket = data[0]\<close>, \<^verbatim>\<open>buckets = &data[0] + 2\<close>,
  \<^verbatim>\<open>chains = buckets + nbucket\<close>. The source indexes these without a bound; an index
  outside \<^verbatim>\<open>data\<close> is the error \<open>BadIndex\<close>.
\<close>

definition nbucket :: "SymHash \<Rightarrow> Word option" where
  "nbucket h = readObj (data h) 0"

definition buckets_at :: "SymHash \<Rightarrow> nat \<Rightarrow> Word option" where
  "buckets_at h k = readObj (data h) (2 + k)"

definition chains_at :: "SymHash \<Rightarrow> nat \<Rightarrow> Word option" where
  "chains_at h i =
     (case nbucket h of None \<Rightarrow> None | Some nb \<Rightarrow> readObj (data h) (2 + unat nb + i))"

text \<open>
  The loop of \<^verbatim>\<open>SymHash::findSymbol\<close>: \<^verbatim>\<open>for (i = buckets[bucket]; i != STN_UNDEF;
  i = chains[i])\<close>. A chain that runs in a circle never returns: the value \<open>None\<close>.
\<close>

partial_function (option) sysv_chain_walk ::
  "SymHash \<Rightarrow> string \<Rightarrow> Word \<Rightarrow> (error + (nat \<times> Sym)) option" where
  "sysv_chain_walk h name i =
     (if i = STN_UNDEF then Some (Inr (0, undef))
      else
        (case readObj (sysv_syms h) (unat i) of
           None \<Rightarrow> Some (Inl IoError)
         | Some candidate \<Rightarrow>
             if readString (sysv_strings h) (unat (st_name candidate)) = name
             then Some (Inr (unat i, candidate))
             else (case chains_at h (unat i) of
                     None \<Rightarrow> Some (Inl BadIndex)
                   | Some nxt \<Rightarrow> sysv_chain_walk h name nxt)))"

definition SymHash_findSymbol :: "SymHash \<Rightarrow> string \<Rightarrow> (error + (nat \<times> Sym)) option" where
  "SymHash_findSymbol h name =
     (case nbucket h of
        None \<Rightarrow> Some (Inl BadIndex)
      | Some nb \<Rightarrow>
          if nb = 0 then Some (Inl DivideByZero)
          else
            (case buckets_at h (unat (elf_hash name) mod unat nb) of
               None \<Rightarrow> Some (Inl BadIndex)
             | Some i \<Rightarrow> sysv_chain_walk h name i))"

text \<open>
  \<^verbatim>\<open>Object::findDynamicSymbol\<close>: the GNU table when the image has one, else the SysV
  table, else \<^verbatim>\<open>(0, undef())\<close>; an index 0 becomes \<^verbatim>\<open>{undef(), 0}\<close>. The result is
  \<open>None\<close> when the lookup never returns.
\<close>

definition findDynamicSymbol :: "Object \<Rightarrow> string \<Rightarrow> (error + (Sym \<times> nat)) option" where
  "findDynamicSymbol obj name =
     (case (case gnu_hash_table obj of
              Some g \<Rightarrow> Some (GnuHash_findSymbol g name)
            | None \<Rightarrow>
                (case hash_table obj of
                   Some h \<Rightarrow> SymHash_findSymbol h name
                 | None \<Rightarrow> Some (Inr (0, undef)))) of
        None \<Rightarrow> None
      | Some (Inl e) \<Rightarrow> Some (Inl e)
      | Some (Inr (idx, symb)) \<Rightarrow>
          if idx = 0 then Some (Inr (undef, 0)) else Some (Inr (symb, idx)))"

fun set_hash_table :: "SymHash option \<Rightarrow> Object \<Rightarrow> Object" where
  "set_hash_table h' (Object n i ph sh ns dn dl dobj dd l ds dy g h) =
     Object n i ph sh ns dn dl dobj dd l ds dy g h'"

text \<open>The names of a symbol table: the strings its entries point to.\<close>

definition symbol_names :: "Sym list \<Rightarrow> string \<Rightarrow> string set" where
  "symbol_names ss strs = (\<lambda>s. readString strs (unat (st_name s))) ` set ss"

text \<open>The \<open>k\<close>-th symbol index on a SysV chain that starts at \<open>i\<close>.\<close>

fun chain_nth :: "SymHash \<Rightarrow> Word \<Rightarrow> nat \<Rightarrow> Word option" where
  "chain_nth h i 0 = Some i"
| "chain_nth h i (Suc k) =
     (case chains_at h (unat i) of None \<Rightarrow> None | Some nxt \<Rightarrow> chain_nth h nxt k)"

text \<open>
  A name that the GNU table chains at symbol index \<open>i\<close>: its two Bloom bits are set,
  its bucket holds an index \<open>b\<close> with \<open>symoffset \<le> b \<le> i\<close>, \<open>b \<noteq> 0\<close>, the chain
  entries of \<open>b, \<dots>, i - 1\<close> have a clear end bit, and the entry of \<open>i\<close> carries the
  hash of the name, whose string is the name of symbol \<open>i\<close>.
\<close>

definition gnu_indexed :: "GnuHash \<Rightarrow> string \<Rightarrow> nat \<Rightarrow> bool" where
  "gnu_indexed g name i \<longleftrightarrow>
     bloom_size g \<noteq> 0 \<and> nbuckets g \<noteq> 0
     \<and> (\<exists>bloomword. readObj (bloom g)
             ((unat (gnu_hash name) div ELF_BITS) mod unat (bloom_size g)) = Some bloomword
           \<and> bloomword AND bloom_mask g (gnu_hash name) = bloom_mask g (gnu_hash name))
     \<and> (\<exists>b. readObj (gnu_buckets g) (unat (gnu_hash name) mod unat (nbuckets g)) = Some b
           \<and> symoffset g \<le> b \<and> b \<noteq> 0 \<and> unat b \<le> i
           \<and> (\<forall>k. unat b \<le> k \<and> k < i \<longrightarrow>
                 (\<exists>c. readObj (gnu_chains g) (k - unat (symoffset g)) = Some c \<and> c AND 1 = 0)))
     \<and> i < length (gnu_syms g)
     \<and> (\<exists>ch. readObj (gnu_chains g) (i - unat (symoffset g)) = Some ch
            \<and> (ch OR 1) = (gnu_hash name OR 1))
     \<and> readString (gnu_strings g) (unat (st_name (gnu_syms g ! i))) = c_str name"

text \<open>
  A name that the SysV table chains at position \<open>k\<close> of its bucket's chain: the
  positions before \<open>k\<close> hold indices of symbols, position \<open>k\<close> the index of a symbol
  with that name.
\<close>

definition sysv_indexed :: "SymHash \<Rightarrow> string \<Rightarrow> nat \<Rightarrow> bool" where
  "sysv_indexed h name k \<longleftrightarrow>
     (\<exists>nb b. nbucket h = Some nb \<and> nb \<noteq> 0
        \<and> buckets_at h (unat (elf_hash name) mod unat nb) = Some b
        \<and> (\<forall>m. m \<le> k \<longrightarrow>
              (\<exists>u. chain_nth h b m = Some u \<and> u \<noteq> STN_UNDEF \<and> unat u < length (sysv_syms h)))
        \<and> (\<exists>t. chain_nth h b k = Some t
              \<and> readString (sysv_strings h) (unat (st_name (sysv_syms h ! unat t))) = name))"

text \<open>
  A chain of the GNU table that ends, from the symbol index \<open>b\<close> on: some index
  \<open>e \<ge> b\<close> of the symbol table has a chain entry with the end bit, and the chain
  entries of \<open>b, \<dots>, e\<close> are in the table.
\<close>

definition gnu_chain_ends :: "GnuHash \<Rightarrow> nat \<Rightarrow> bool" where
  "gnu_chain_ends g b \<longleftrightarrow>
     (\<exists>e. b \<le> e \<and> e < length (gnu_syms g)
        \<and> (\<forall>k. b \<le> k \<and> k \<le> e \<longrightarrow>
              (\<exists>c. readObj (gnu_chains g) (k - unat (symoffset g)) = Some c))
        \<and> (\<exists>c. readObj (gnu_chains g) (e - unat (symoffset g)) = Some c \<and> c AND 1 \<noteq> 0))"

text \<open>
  A GNU table in which the lookup of a name comes to an end: the Bloom word of the hash
  is in the table and, when the filter lets the hash pass, so is its bucket, whose chain,
  when the bucket is not below \<^verbatim>\<open>symoffset\<close>, ends.
\<close>

definition gnu_terminated :: "GnuHash \<Rightarrow> string \<Rightarrow> bool" where
  "gnu_terminated g name \<longleftrightarrow>
     bloom_size g \<noteq> 0
     \<and> (\<exists>bloomword. readObj (bloom g)
             ((unat (gnu_hash name) div ELF_BITS) mod unat (bloom_size g)) = Some bloomword
           \<and> (bloomword AND bloom_mask g (gnu_hash name) = bloom_mask g (gnu_hash name) \<longrightarrow>
                nbuckets g \<noteq> 0
                \<and> (\<exists>b. readObj (gnu_buckets g) (unat (gnu_hash name) mod unat (nbuckets g))
                          = Some b
                      \<and> (symoffset g \<le> b \<longrightarrow> gnu_chain_ends g (unat b)))))"

text \<open>
  A SysV table in which the lookup of a name comes to an end: the bucket of the hash is
  in the table and its chain reaches \<^verbatim>\<open>STN_UNDEF\<close> over indices of symbols.
\<close>

definition sysv_terminated :: "SymHash \<Rightarrow> string \<Rightarrow> bool" where
  "sysv_terminated h name \<longleftrightarrow>
     (\<exists>nb b k. nbucket h = Some nb \<and> nb \<noteq> 0
        \<and> buckets_at h (unat (elf_hash name) mod unat nb) = Some b
        \<and> chain_nth h b k = Some STN_UNDEF
        \<and> (\<forall>m. m < k \<longrightarrow>
              (\<exists>u. chain_nth h b m = Some u \<and> u \<noteq> STN_UNDEF
                    \<and> unat u < length (sysv_syms h))))"

section \<open>Address to symbol\<close>

text \<open>\<^verbatim>\<open>ELF_ST_TYPE\<close>: the low four bits of \<^verbatim>\<open>st_info\<close>, as an \<^verbatim>\<open>int\<close>.\<close>

definition ELF_ST_TYPE :: "8 word \<Rightarrow> int" where
  "ELF_ST_TYPE info = uint (info AND 0xf)"

text \<open>\<^verbatim>\<open>table.name(candidate)\<close>: the string of the table at \<^verbatim>\<open>st_name\<close>.\<close>

definition table_name :: "SymbolSection \<Rightarrow> Sym \<Rightarrow> string" where
  "table_name table candidate = readString (strings table) (unat (st_name candidate))"

text \<open>
  The closure \<^verbatim>\<open>findSym\<close> of \<^verbatim>\<open>Object::findSymbolByAddress\<close>, on the candidates still
  to visit. The captured variables \<^verbatim>\<open>sym\<close>, \<^verbatim>\<open>name\<close> and
  \<^verbatim>\<open>haveExactZeroSizeMatch\<close> are the state \<open>(symb, nm, have)\<close>; the result is the
  closure's return value and the state it leaves. When the loop ends without a return
  the closure sets \<^verbatim>\<open>sym.st_shndx = SHN_UNDEF\<close>.
\<close>

fun findSym :: "Object \<Rightarrow> Addr \<Rightarrow> int \<Rightarrow> SymbolSection \<Rightarrow> Sym list
    \<Rightarrow> Sym \<times> string \<times> bool \<Rightarrow> bool \<times> Sym \<times> string \<times> bool" where
  "findSym obj addr type table [] (symb, nm, have) =
     (False, (symb\<lparr>st_shndx := SHN_UNDEF\<rparr>, nm, have))"
| "findSym obj addr type table (candidate # rest) (symb, nm, have) =
     (if length (sectionHeaders obj) \<le> unat (st_shndx candidate)
      then findSym obj addr type table rest (symb, nm, have)
      else if type \<noteq> STT_NOTYPE \<and> ELF_ST_TYPE (st_info candidate) \<noteq> type
      then findSym obj addr type table rest (symb, nm, have)
      else if st_value candidate > addr
      then findSym obj addr type table rest (symb, nm, have)
      else if st_size candidate + st_value candidate \<le> addr
      then (if st_size candidate = 0 \<and> st_value candidate = addr
            then findSym obj addr type table rest (candidate, table_name table candidate, True)
            else findSym obj addr type table rest (symb, nm, have))
      else if sh_flags (shdr (sectionHeaders obj ! unat (st_shndx candidate))) AND SHF_ALLOC = 0
      then findSym obj addr type table rest (symb, nm, have)
      else (True, (candidate, table_name table candidate, have)))"

text \<open>
  \<^verbatim>\<open>Object::findSymbolByAddress\<close>: \<^verbatim>\<open>.symtab\<close>, then \<^verbatim>\<open>.dynsym\<close>, then the image
  embedded in \<^verbatim>\<open>.gnu_debugdata\<close>, then the recorded zero-size match. The field
  \<open>debugData\<close> is the embedded image as the lazy load leaves it: absent when the
  section is missing or the build has no LZMA support.
\<close>

fun findSymbolByAddress :: "Object \<Rightarrow> Addr \<Rightarrow> int \<Rightarrow> (Sym \<times> string) option" where
  "findSymbolByAddress (Object n i ph sh ns dn dl dobj dd l ds dy g h) addr type =
     (let obj = Object n i ph sh ns dn dl dobj dd l ds dy g h;
          (found1, symb1, nm1, have1) = findSym obj addr type ds (syms ds) (undef, [], False)
      in if found1 then Some (symb1, nm1)
         else
           (let (found2, symb2, nm2, have2) =
                  findSym obj addr type dy (syms dy) (symb1, nm1, have1)
            in if found2 then Some (symb2, nm2)
               else
                 (case (case dd of
                          None \<Rightarrow> None
                        | Some nested \<Rightarrow> findSymbolByAddress nested addr type) of
                    Some debugSym \<Rightarrow> Some debugSym
                  | None \<Rightarrow> if have2 then Some (symb2, nm2) else None)))"

declare findSymbolByAddress.simps [simp del]

text \<open>
  A candidate the scan returns at once: section index in bounds, type accepted, the
  address inside \<open>[st_value, st_value + st_size)\<close> in 64-bit arithmetic, the section
  allocated.
\<close>

definition accepted :: "Object \<Rightarrow> int \<Rightarrow> Sym \<Rightarrow> bool" where
  "accepted obj type c \<longleftrightarrow>
     unat (st_shndx c) < length (sectionHeaders obj)
     \<and> (type = STT_NOTYPE \<or> ELF_ST_TYPE (st_info c) = type)"

definition covering :: "Object \<Rightarrow> Addr \<Rightarrow> int \<Rightarrow> Sym \<Rightarrow> bool" where
  "covering obj addr type c \<longleftrightarrow>
     accepted obj type c \<and> st_value c \<le> addr \<and> addr < st_size c + st_value c
     \<and> sh_flags (shdr (sectionHeaders obj ! unat (st_shndx c))) AND SHF_ALLOC \<noteq> 0"

text \<open>A candidate the scan records as the fallback: zero size, at the address.\<close>

definition zero_size_exact :: "Object \<Rightarrow> Addr \<Rightarrow> int \<Rightarrow> Sym \<Rightarrow> bool" where
  "zero_size_exact obj addr type c \<longleftrightarrow>
     accepted obj type c \<and> st_size c = 0 \<and> st_value c = addr"

text \<open>
  The fallback after both scans: the last zero-size exact match of \<^verbatim>\<open>.dynsym\<close>, else
  the last one of \<^verbatim>\<open>.symtab\<close>, its \<^verbatim>\<open>st_shndx\<close> overwritten by the end of the scan.
\<close>

definition fallback :: "Object \<Rightarrow> Addr \<Rightarrow> int \<Rightarrow> (Sym \<times> string) option" where
  "fallback obj addr type =
     (case find (zero_size_exact obj addr type) (rev (syms (dynamicSymbols obj))) of
        Some z \<Rightarrow> Some (z\<lparr>st_shndx := SHN_UNDEF\<rparr>, table_name (dynamicSymbols obj) z)
      | None \<Rightarrow>
          (case find (zero_size_exact obj addr type) (rev (syms (debugSymbols obj))) of
             Some z \<Rightarrow> Some (z\<lparr>st_shndx := SHN_UNDEF\<rparr>, table_name (debugSymbols obj) z)
           | None \<Rightarrow> None))"

section \<open>Symbol versions\<close>

text \<open>
  Modelled from the spec: the Reader capability over a byte range. \<^verbatim>\<open>view\<close> is the
  sub-range, \<^verbatim>\<open>readObj\<close> of an integer reads its bytes in little-endian order and
  fails past the end of the range.
\<close>

definition view :: "string \<Rightarrow> nat \<Rightarrow> nat \<Rightarrow> string" where
  "view bytes off len = take len (drop off bytes)"

definition le_word :: "string \<Rightarrow> 'a::len word" where
  "le_word bytes = foldr (\<lambda>c w. of_char c + 256 * w) bytes 0"

definition readInt :: "string \<Rightarrow> nat \<Rightarrow> nat \<Rightarrow> 'a::len word option" where
  "readInt bytes off n =
     (if off + n \<le> length bytes then Some (le_word (take n (drop off bytes))) else None)"

definition readHalf :: "string \<Rightarrow> nat \<Rightarrow> Half option" where
  "readHalf bytes off = readInt bytes off 2"

definition readWord :: "string \<Rightarrow> nat \<Rightarrow> Word option" where
  "readWord bytes off = readInt bytes off 4"

text \<open>
  Modelled from the spec: the inflate reader (zlib), outside \<^verbatim>\<open>elf.cc\<close>, is a
  parameter: from the declared size and the compressed bytes to the logical bytes, or the
  Reader's failure. No inflater is a build without \<^verbatim>\<open>WITH_ZLIB\<close>.
\<close>

type_synonym Inflate = "(nat \<Rightarrow> string \<Rightarrow> error + string) option"

definition SHF_COMPRESSED :: Xword where "SHF_COMPRESSED = 0x800"

text \<open>\<^verbatim>\<open>sizeof (Chdr)\<close>: the type, a reserved word, the size and the alignment.\<close>

definition sizeof_Chdr :: nat where "sizeof_Chdr = 24"

text \<open>The size after the \<^verbatim>\<open>ZLIB\<close> magic: eight bytes, the most significant first.\<close>

definition be_size :: "string \<Rightarrow> 64 word" where
  "be_size sig = foldl (\<lambda>sz c. push_bit 8 sz OR of_char c) 0 (take 8 (drop 4 sig))"

text \<open>
  \<^verbatim>\<open>Section::io()\<close>, the logical bytes of a section (the reader is built on the first
  call and kept): an empty reader for \<^verbatim>\<open>SHT_NULL\<close>; for \<^verbatim>\<open>SHF_COMPRESSED\<close> the
  inflater of the size in the \<^verbatim>\<open>Chdr\<close> over the bytes after it; for a section named
  \<^verbatim>\<open>.zdebug_\<close>... that starts with the \<^verbatim>\<open>ZLIB\<close> magic the inflater of the size
  after the magic, over a view of that length after the twelve bytes; an empty reader for
  such a section without the magic and for a compressed section in a build without
  zlib; else the view of the image at \<^verbatim>\<open>sh_offset\<close> of length \<^verbatim>\<open>sh_size\<close>.
\<close>

definition Section_io :: "Inflate \<Rightarrow> Object \<Rightarrow> Section \<Rightarrow> error + string" where
  "Section_io zlib obj s =
     (if sh_type (shdr s) = SHT_NULL then Inr []
      else
        (let rawIo = view (io obj) (unat (sh_offset (shdr s))) (unat (sh_size (shdr s)))
         in if sh_flags (shdr s) AND SHF_COMPRESSED \<noteq> 0 then
              (case zlib of
                 None \<Rightarrow> Inr []
               | Some inflate \<Rightarrow>
                   if length rawIo < sizeof_Chdr then Inl IoError
                   else inflate (unat (le_word (take 8 (drop 8 rawIo)) :: 64 word))
                          (view rawIo sizeof_Chdr (unat (sh_size (shdr s) - of_nat sizeof_Chdr))))
            else if take 8 (section_name s) = ''.zdebug_'' then
              (if length rawIo < 12 then Inl IoError
               else if take 4 rawIo = ''ZLIB'' then
                 (case zlib of
                    None \<Rightarrow> Inr []
                  | Some inflate \<Rightarrow>
                      inflate (unat (be_size (take 12 rawIo)))
                        (view rawIo 12 (unat (be_size (take 12 rawIo)))))
               else Inr [])
            else Inr rawIo))"

text \<open>\<^verbatim>\<open>io()->readString(offset)\<close> on the reader of a section.\<close>

definition readString_of :: "error + string \<Rightarrow> nat \<Rightarrow> error + string" where
  "readString_of r off = (case r of Inl e \<Rightarrow> Inl e | Inr bytes \<Rightarrow> Inr (readString bytes off))"

text \<open>
  \<^verbatim>\<open>Object::getLinkedSection\<close> for a section of the object itself
  (\<^verbatim>\<open>from.elf == this\<close>): the null section is its own link, else the section at
  \<^verbatim>\<open>sh_link\<close>, which the source indexes without a bound.
\<close>

definition getLinkedSection :: "Object \<Rightarrow> Section \<Rightarrow> error + Section" where
  "getLinkedSection obj from =
     (if \<not> Section_bool from then Inr from
      else if unat (sh_link (shdr from)) < length (sectionHeaders obj)
      then Inr (sectionHeaders obj ! unat (sh_link (shdr from)))
      else Inl BadIndex)"

record Verneed =
  vn_version :: Half
  vn_cnt :: Half
  vn_file :: Word
  vn_aux :: Word
  vn_next :: Word

record Vernaux =
  vna_hash :: Word
  vna_flags :: Half
  vna_other :: Half
  vna_name :: Word
  vna_next :: Word

record Verdef =
  vd_version :: Half
  vd_flags :: Half
  vd_ndx :: Half
  vd_cnt :: Half
  vd_hash :: Word
  vd_aux :: Word
  vd_next :: Word

record Verdaux =
  vda_name :: Word
  vda_next :: Word

definition readVerneed :: "string \<Rightarrow> nat \<Rightarrow> Verneed option" where
  "readVerneed bytes off =
     Option.bind (readHalf bytes off) (\<lambda>a.
     Option.bind (readHalf bytes (off + 2)) (\<lambda>b.
     Option.bind (readWord bytes (off + 4)) (\<lambda>c.
     Option.bind (readWord bytes (off + 8)) (\<lambda>d.
     Option.bind (readWord bytes (off + 12)) (\<lambda>e.
       Some \<lparr>vn_version = a, vn_cnt = b, vn_file = c, vn_aux = d, vn_next = e\<rparr>)))))"

definition readVernaux :: "string \<Rightarrow> nat \<Rightarrow> Vernaux option" where
  "readVernaux bytes off =
     Option.bind (readWord bytes off) (\<lambda>a.
     Option.bind (readHalf bytes (off + 4)) (\<lambda>b.
     Option.bind (readHalf bytes (off + 6)) (\<lambda>c.
     Option.bind (readWord bytes (off + 8)) (\<lambda>d.
     Option.bind (readWord bytes (off + 12)) (\<lambda>e.
       Some \<lparr>vna_hash = a, vna_flags = b, vna_other = c, vna_name = d, vna_next = e\<rparr>)))))"

definition readVerdef :: "string \<Rightarrow> nat \<Rightarrow> Verdef option" where
  "readVerdef bytes off =
     Option.bind (readHalf bytes off) (\<lambda>a.
     Option.bind (readHalf bytes (off + 2)) (\<lambda>b.
     Option.bind (readHalf bytes (off + 4)) (\<lambda>c.
     Option.bind (readHalf bytes (off + 6)) (\<lambda>d.
     Option.bind (readWord bytes (off + 8)) (\<lambda>e.
     Option.bind (readWord bytes (off + 12)) (\<lambda>f.
     Option.bind (readWord bytes (off + 16)) (\<lambda>g.
       Some \<lparr>vd_version = a, vd_flags = b, vd_ndx = c, vd_cnt = d, vd_hash = e, vd_aux = f,
             vd_next = g\<rparr>)))))))"

definition readVerdaux :: "string \<Rightarrow> nat \<Rightarrow> Verdaux option" where
  "readVerdaux bytes off =
     Option.bind (readWord bytes off) (\<lambda>a.
     Option.bind (readWord bytes (off + 4)) (\<lambda>b.
       Some \<lparr>vda_name = a, vda_next = b\<rparr>))"

definition SHT_GNU_verdef :: Word where "SHT_GNU_verdef = 0x6ffffffd"
definition SHT_GNU_verneed :: Word where "SHT_GNU_verneed = 0x6ffffffe"
definition DT_VERDEFNUM :: Xword where "DT_VERDEFNUM = 0x6ffffffd"
definition DT_VERNEEDNUM :: Xword where "DT_VERNEEDNUM = 0x6fffffff"

text \<open>
  The version set: version index to name, version index to predecessor, file to the
  indices it provides.
\<close>

record SymbolVersioning =
  versions :: "nat \<rightharpoonup> string"
  predecessors :: "nat \<rightharpoonup> string"
  files :: "string \<rightharpoonup> nat list"

text \<open>
  The inner loop of \<^verbatim>\<open>Object::symbolVersions\<close> over the \<^verbatim>\<open>vn_cnt\<close> auxiliary
  records of one \<^verbatim>\<open>Verneed\<close>, and the outer loop over \<^verbatim>\<open>DT_VERNEEDNUM\<close> records.
  Offsets are counted without the 64-bit wrap-around, which no byte range reaches.
\<close>

function vernaux_loop :: "string \<Rightarrow> error + string \<Rightarrow> nat \<Rightarrow> nat \<Rightarrow> nat \<Rightarrow> string
    \<Rightarrow> SymbolVersioning \<Rightarrow> error + SymbolVersioning" where
  "vernaux_loop vio strs i cnt auxOff filename rv =
     (if i < cnt then
        (case readVernaux vio auxOff of
           None \<Rightarrow> Inl IoError
         | Some aux \<Rightarrow>
             (case readString_of strs (unat (vna_name aux)) of
                Inl e \<Rightarrow> Inl e
              | Inr name \<Rightarrow>
                  vernaux_loop vio strs (i + 1) cnt (auxOff + unat (vna_next aux)) filename
                    (rv\<lparr>versions := (versions rv) (unat (vna_other aux) \<mapsto> name),
                        files := (files rv)
                           (filename \<mapsto> (case files rv filename of None \<Rightarrow> [] | Some l \<Rightarrow> l)
                                         @ [unat (vna_other aux)])\<rparr>)))
      else Inr rv)"
  by pat_completeness auto
termination
  by (relation "measure (\<lambda>(vio, strs, i, cnt, auxOff, filename, rv). cnt - i)") auto

declare vernaux_loop.simps [simp del]

function verneed_loop :: "string \<Rightarrow> error + string \<Rightarrow> nat \<Rightarrow> nat \<Rightarrow> SymbolVersioning
    \<Rightarrow> error + SymbolVersioning" where
  "verneed_loop vio strs cnt off rv =
     (if cnt \<noteq> 0 then
        (case readVerneed vio off of
           None \<Rightarrow> Inl IoError
         | Some verneed \<Rightarrow>
             (case readString_of strs (unat (vn_file verneed)) of
                Inl e \<Rightarrow> Inl e
              | Inr filename \<Rightarrow>
                  (let rv1 = rv\<lparr>files := (files rv)
                          (filename \<mapsto> (case files rv filename of None \<Rightarrow> [] | Some l \<Rightarrow> l))\<rparr>
                   in case vernaux_loop vio strs 0 (unat (vn_cnt verneed))
                             (off + unat (vn_aux verneed)) filename rv1 of
                        Inl e \<Rightarrow> Inl e
                      | Inr rv2 \<Rightarrow>
                          verneed_loop vio strs (cnt - 1) (off + unat (vn_next verneed)) rv2)))
      else Inr rv)"
  by pat_completeness auto
termination
  by (relation "measure (\<lambda>(vio, strs, cnt, off, rv). cnt)") auto

declare verneed_loop.simps [simp del]

text \<open>
  The loop over \<^verbatim>\<open>DT_VERDEFNUM\<close> definitions: the first auxiliary record names the
  version, the second one its predecessor.
\<close>

function verdef_loop :: "string \<Rightarrow> error + string \<Rightarrow> nat \<Rightarrow> nat \<Rightarrow> SymbolVersioning
    \<Rightarrow> error + SymbolVersioning" where
  "verdef_loop vio strs cnt off rv =
     (if cnt \<noteq> 0 then
        (case readVerdef vio off of
           None \<Rightarrow> Inl IoError
         | Some verdef \<Rightarrow>
             (case (if 1 \<le> unat (vd_cnt verdef)
                    then (case readVerdaux vio (off + unat (vd_aux verdef)) of
                            None \<Rightarrow> Inl IoError
                          | Some aux \<Rightarrow>
                              (case readString_of strs (unat (vda_name aux)) of
                                 Inl e \<Rightarrow> Inl e
                               | Inr name \<Rightarrow>
                                   Inr (rv\<lparr>versions := (versions rv)
                                             (unat (vd_ndx verdef) \<mapsto> name)\<rparr>,
                                        off + unat (vd_aux verdef) + unat (vda_next aux))))
                    else Inr (rv, off + unat (vd_aux verdef))) of
                Inl e \<Rightarrow> Inl e
              | Inr (rv1, auxOff) \<Rightarrow>
                  (case (if 2 \<le> unat (vd_cnt verdef)
                         then (case readVerdaux vio auxOff of
                                 None \<Rightarrow> Inl IoError
                               | Some aux \<Rightarrow>
                                   (case readString_of strs (unat (vda_name aux)) of
                                      Inl e \<Rightarrow> Inl e
                                    | Inr name \<Rightarrow>
                                        Inr (rv1\<lparr>predecessors := (predecessors rv1)
                                                   (unat (vd_ndx verdef) \<mapsto> name)\<rparr>)))
                         else Inr rv1) of
                     Inl e \<Rightarrow> Inl e
                   | Inr rv2 \<Rightarrow>
                       verdef_loop vio strs (cnt - 1) (off + unat (vd_next verdef)) rv2)))
      else Inr rv)"
  by pat_completeness auto
termination
  by (relation "measure (\<lambda>(vio, strs, cnt, off, rv). cnt)") auto

declare verdef_loop.simps [simp del]

text \<open>
  \<^verbatim>\<open>Object::symbolVersions\<close>, the table as it is built on the first call (later calls
  return the table kept from the first). \<^verbatim>\<open>dynamic.at\<close> throws when the image has a
  version section and no entry of the tag.
\<close>

definition version_section :: "Inflate \<Rightarrow> Object \<Rightarrow> string \<Rightarrow> Word \<Rightarrow> Xword
    \<Rightarrow> (string \<Rightarrow> error + string \<Rightarrow> nat \<Rightarrow> nat \<Rightarrow> SymbolVersioning
          \<Rightarrow> error + SymbolVersioning)
    \<Rightarrow> SymbolVersioning \<Rightarrow> error + SymbolVersioning" where
  "version_section zlib obj secname type tag loop rv =
     (let sec = getSection obj secname type
      in if Section_bool sec then
           (case getLinkedSection obj sec of
              Inl e \<Rightarrow> Inl e
            | Inr strs \<Rightarrow>
                (case dynamic obj tag of
                   None \<Rightarrow> Inl OutOfRange
                 | Some num \<Rightarrow>
                     if num \<noteq> [] \<and> unat (d_val (num ! 0)) \<noteq> 0
                     then (case Section_io zlib obj sec of
                             Inl e \<Rightarrow> Inl e
                           | Inr vio \<Rightarrow>
                               loop vio (Section_io zlib obj strs) (unat (d_val (num ! 0))) 0 rv)
                     else Inr rv))
         else Inr rv)"

definition symbolVersions :: "Inflate \<Rightarrow> Object \<Rightarrow> error + SymbolVersioning" where
  "symbolVersions zlib obj =
     (case version_section zlib obj ''.gnu.version_r'' SHT_GNU_verneed DT_VERNEEDNUM verneed_loop
             \<lparr>versions = Map.empty, predecessors = Map.empty, files = Map.empty\<rparr> of
        Inl e \<Rightarrow> Inl e
      | Inr rv \<Rightarrow>
          version_section zlib obj ''.gnu.version_d'' SHT_GNU_verdef DT_VERDEFNUM verdef_loop rv)"

text \<open>
  \<^verbatim>\<open>Object::symbolVersion(idx)\<close>: the table first, then the index without bit 15;
  \<^verbatim>\<open>versions.at(i)\<close> throws for an index that has no name.
\<close>

definition symbolVersion :: "Inflate \<Rightarrow> Object \<Rightarrow> Half \<Rightarrow> error + string option" where
  "symbolVersion zlib obj idx =
     (case symbolVersions zlib obj of
        Inl e \<Rightarrow> Inl e
      | Inr vi \<Rightarrow>
          (let i = unat (idx AND 0x7fff)
           in if 2 \<le> i
              then (case versions vi i of None \<Rightarrow> Inl OutOfRange | Some n \<Rightarrow> Inr (Some n))
              else Inr None))"

section \<open>Notes\<close>

text \<open>
  Modelled from the spec: \<^verbatim>\<open>roundup2(x, 4)\<close>, declared outside \<^verbatim>\<open>elf.cc\<close>, aligns
  up to a multiple of 4; in machine arithmetic, \<open>val + (align - val mod align) mod align\<close>.
\<close>

definition roundup2 :: "'a::len word \<Rightarrow> 'a word \<Rightarrow> 'a word" where
  "roundup2 val align = val + (align - val mod align) mod align"

text \<open>\<^verbatim>\<open>sizeof (Nhdr)\<close>: three 32-bit words.\<close>

definition sizeof_Nhdr :: nat where
  "sizeof_Nhdr = 12"

definition readNhdr :: "string \<Rightarrow> nat \<Rightarrow> Nhdr option" where
  "readNhdr bytes off =
     Option.bind (readWord bytes off) (\<lambda>a.
     Option.bind (readWord bytes (off + 4)) (\<lambda>b.
     Option.bind (readWord bytes (off + 8)) (\<lambda>c.
       Some \<lparr>n_namesz = a, n_descsz = b, n_type = c\<rparr>)))"

text \<open>
  The state of \<^verbatim>\<open>Notes::iterator\<close>: the \<^verbatim>\<open>PT_NOTE\<close> group, the position in it, the
  offset in the current segment, the current note header, the view of the current
  segment.
\<close>

record Notes_iterator =
  phdrs :: "Phdr list"
  phdrsi :: nat
  offset :: Off
  curNote :: Nhdr
  note_io :: string

text \<open>A note as the iterator yields it: the header and the view from the note on.\<close>

record NoteDesc =
  note_hdr :: Nhdr
  desc_io :: string

definition startSection :: "Object \<Rightarrow> Notes_iterator \<Rightarrow> Notes_iterator" where
  "startSection obj it =
     it\<lparr>offset := 0,
        note_io := view (io obj) (unat (p_offset (phdrs it ! phdrsi it)))
                     (unat (p_filesz (phdrs it ! phdrsi it)))\<rparr>"

text \<open>
  Modelled from the spec: \<^verbatim>\<open>readNote\<close>, declared outside \<^verbatim>\<open>elf.cc\<close>, reads the note
  header at the current offset of the current segment.
\<close>

definition readNote :: "Notes_iterator \<Rightarrow> error + Notes_iterator" where
  "readNote it =
     (case readNhdr (note_io it) (unat (offset it)) of
        None \<Rightarrow> Inl IoError
      | Some n \<Rightarrow> Inr (it\<lparr>curNote := n\<rparr>))"

text \<open>
  The constructor of the iterator, \<^verbatim>\<open>Notes::begin\<close> and \<^verbatim>\<open>Notes::end\<close>. The note
  header of an iterator that reads no note is not initialised; the model holds zeros.
\<close>

definition Notes_iterator :: "Object \<Rightarrow> bool \<Rightarrow> error + Notes_iterator" where
  "Notes_iterator obj begin =
     (let ps = getSegments obj PT_NOTE;
          it = \<lparr>phdrs = ps, phdrsi = (if begin then 0 else length ps), offset = 0,
                curNote = \<lparr>n_namesz = 0, n_descsz = 0, n_type = 0\<rparr>, note_io = []\<rparr>
      in if phdrsi it \<noteq> length ps then readNote (startSection obj it) else Inr it)"

definition Notes_begin :: "Object \<Rightarrow> error + Notes_iterator" where
  "Notes_begin obj = Notes_iterator obj True"

definition Notes_end :: "Object \<Rightarrow> error + Notes_iterator" where
  "Notes_end obj = Notes_iterator obj False"

text \<open>\<^verbatim>\<open>Notes::iterator::operator++\<close>.\<close>

definition operator_inc :: "Object \<Rightarrow> Notes_iterator \<Rightarrow> error + Notes_iterator" where
  "operator_inc obj it =
     (let newOff = offset it;
          newOff = newOff + (of_nat sizeof_Nhdr + ucast (n_namesz (curNote it)));
          newOff = roundup2 newOff 4;
          newOff = newOff + ucast (n_descsz (curNote it));
          newOff = roundup2 newOff 4
      in if newOff \<ge> p_filesz (phdrs it ! phdrsi it) then
           (let it1 = it\<lparr>phdrsi := phdrsi it + 1\<rparr>
            in if phdrsi it1 = length (phdrs it1) then Inr (it1\<lparr>offset := 0\<rparr>)
               else readNote (startSection obj it1))
         else readNote (it\<lparr>offset := newOff\<rparr>))"

text \<open>
  \<^verbatim>\<open>NoteDesc::name\<close> and \<^verbatim>\<open>NoteDesc::data\<close>: the string after the header, and the view
  of \<^verbatim>\<open>n_descsz\<close> bytes at \<^verbatim>\<open>sizeof note + roundup2(n_namesz, 4)\<close>.
\<close>

definition NoteDesc_name :: "NoteDesc \<Rightarrow> string" where
  "NoteDesc_name nd = readString (desc_io nd) sizeof_Nhdr"

definition NoteDesc_data :: "NoteDesc \<Rightarrow> string" where
  "NoteDesc_data nd =
     view (desc_io nd)
       (sizeof_Nhdr + unat (roundup2 (ucast (n_namesz (note_hdr nd)) :: 64 word) 4))
       (unat (n_descsz (note_hdr nd)))"

text \<open>
  Modelled from the spec: the comparison and the dereference of iterators, declared
  outside \<^verbatim>\<open>elf.cc\<close>. Two iterators over the notes of an object are equal when they
  stand at the same segment and offset (\<^verbatim>\<open>operator++\<close> resets the offset when it
  leaves the last segment); an iterator yields the current header with the view of its
  segment from the current offset on.
\<close>

definition iterator_eq :: "Notes_iterator \<Rightarrow> Notes_iterator \<Rightarrow> bool" where
  "iterator_eq a b \<longleftrightarrow> phdrsi a = phdrsi b \<and> offset a = offset b"

definition deref :: "Notes_iterator \<Rightarrow> NoteDesc" where
  "deref it = \<lparr>note_hdr = curNote it, desc_io = drop (unat (offset it)) (note_io it)\<rparr>"

text \<open>
  The loop \<^verbatim>\<open>for (const auto &note : notes())\<close> from an iterator on, collecting the
  notes it visits. The fuel bounds the number of steps; \<open>None\<close> is a loop that has
  not reached \<^verbatim>\<open>end()\<close> within it.
\<close>

fun notes_from :: "nat \<Rightarrow> Object \<Rightarrow> Notes_iterator \<Rightarrow> (error + NoteDesc list) option" where
  "notes_from 0 obj it = None"
| "notes_from (Suc fuel) obj it =
     (case Notes_end obj of
        Inl e \<Rightarrow> Some (Inl e)
      | Inr e \<Rightarrow>
          if iterator_eq it e then Some (Inr [])
          else
            (case operator_inc obj it of
               Inl err \<Rightarrow> Some (Inl err)
             | Inr it' \<Rightarrow>
                 (case notes_from fuel obj it' of
                    None \<Rightarrow> None
                  | Some (Inl err) \<Rightarrow> Some (Inl err)
                  | Some (Inr rest) \<Rightarrow> Some (Inr (deref it # rest)))))"

definition Object_notes :: "nat \<Rightarrow> Object \<Rightarrow> (error + NoteDesc list) option" where
  "Object_notes fuel obj =
     (case Notes_begin obj of
        Inl e \<Rightarrow> Some (Inl e)
      | Inr it \<Rightarrow> notes_from fuel obj it)"








section \<open>Example images\<close>

text \<open>
  Concrete images on which the theorems below are instantiated. Their program headers are
  sorted by the insertion sort that keeps headers of equal \<^verbatim>\<open>p_vaddr\<close> in file order,
  which is how the GNU library runs \<^verbatim>\<open>std::sort\<close> on a range of at most 16 elements.
\<close>

definition nullSection :: Section where
  "nullSection = \<lparr>shdr = \<lparr>sh_name = 0, sh_type = SHT_NULL, sh_flags = 0, sh_addr = 0,
     sh_offset = 0, sh_size = 0, sh_link = 0, sh_info = 0, sh_addralign = 0,
     sh_entsize = 0\<rparr>, section_name = ''''\<rparr>"

definition image_of_segments :: "Phdr list \<Rightarrow> Object" where
  "image_of_segments hdrs =
     Object ''a.out'' '''' (load_programHeaders (sort_key p_vaddr) hdrs) [nullSection] Map.empty Map.empty False None None None
       \<lparr>syms = [], strings = ''''\<rparr> \<lparr>syms = [], strings = ''''\<rparr> None None"

definition load_segment :: "Addr \<Rightarrow> Xword \<Rightarrow> Phdr" where
  "load_segment va sz = \<lparr>p_type = PT_LOAD, p_flags = 5, p_offset = 0, p_vaddr = va,
     p_paddr = va, p_filesz = sz, p_memsz = sz, p_align = 4096\<rparr>"

definition note_segment :: "Off \<Rightarrow> Addr \<Rightarrow> Xword \<Rightarrow> Phdr" where
  "note_segment off va sz = \<lparr>p_type = PT_NOTE, p_flags = 4, p_offset = off, p_vaddr = va,
     p_paddr = va, p_filesz = sz, p_memsz = sz, p_align = 4\<rparr>"


definition section_at :: "string \<Rightarrow> Word \<Rightarrow> Addr \<Rightarrow> Section" where
  "section_at n t a = \<lparr>shdr = \<lparr>sh_name = 0, sh_type = t, sh_flags = 0, sh_addr = a,
     sh_offset = 0, sh_size = 0, sh_link = 0, sh_info = 0, sh_addralign = 0,
     sh_entsize = 0\<rparr>, section_name = n\<rparr>"

definition image_of_sections :: "Section list \<Rightarrow> Object" where
  "image_of_sections secs =
     Object ''a.out'' '''' Map.empty secs (load_namedSection secs) Map.empty False None None None
       \<lparr>syms = [], strings = ''''\<rparr> \<lparr>syms = [], strings = ''''\<rparr> None None"

definition compressed_image :: Object where
  "compressed_image = image_of_sections
     [nullSection, section_at ''.text'' SHT_PROGBITS 0x1000,
      section_at ''.zdebug_info'' SHT_PROGBITS 0,
      section_at ''.debug_str.dwo'' SHT_PROGBITS 0]"

text \<open>
  A dynamic symbol table with the null symbol, the undefined import \<^verbatim>\<open>foo\<close> and the
  defined function \<^verbatim>\<open>bar\<close>; a GNU hash table that indexes the defined symbol, from
  \<^verbatim>\<open>symoffset = 2\<close> on, and a SysV hash table that indexes both.
\<close>

definition dynstr :: string where
  "dynstr = CHR 0x00 # ''foo'' @ CHR 0x00 # ''bar'' @ [CHR 0x00]"

definition foo_sym :: Sym where
  "foo_sym = \<lparr>st_name = 1, st_info = 0x12, st_other = 0, st_shndx = 0, st_value = 0,
     st_size = 0\<rparr>"

definition bar_sym :: Sym where
  "bar_sym = \<lparr>st_name = 5, st_info = 0x12, st_other = 0, st_shndx = 1, st_value = 0x1000,
     st_size = 0x20\<rparr>"

definition dynsym :: "Sym list" where
  "dynsym = [undef, foo_sym, bar_sym]"

definition gnu_table :: GnuHash where
  "gnu_table = \<lparr>nbuckets = 1, symoffset = 2, bloom_size = 1, bloom_shift = 6,
     bloom = [0x400000000000004], gnu_buckets = [2], gnu_chains = [193487035],
     gnu_syms = dynsym, gnu_strings = dynstr\<rparr>"

text \<open>
  The same symbols behind a GNU table whose Bloom filter lets every hash pass; the only
  chain entry is a parameter.
\<close>

definition dense_table :: "Word \<Rightarrow> GnuHash" where
  "dense_table chain = \<lparr>nbuckets = 1, symoffset = 2, bloom_size = 1, bloom_shift = 6,
     bloom = [0xffffffffffffffff], gnu_buckets = [2], gnu_chains = [chain],
     gnu_syms = dynsym, gnu_strings = dynstr\<rparr>"

definition sysv_table :: SymHash where
  "sysv_table = \<lparr>data = [1, 3, 1, 0, 2, 0], sysv_syms = dynsym, sysv_strings = dynstr\<rparr>"

definition image_of_tables :: "GnuHash option \<Rightarrow> SymHash option \<Rightarrow> Object" where
  "image_of_tables g h =
     Object ''a.out'' '''' Map.empty [nullSection] Map.empty Map.empty False None None None
       \<lparr>syms = [], strings = ''''\<rparr> \<lparr>syms = dynsym, strings = dynstr\<rparr> g h"

text \<open>
  An image with an allocated \<^verbatim>\<open>.text\<close> section and a symbol table in which the
  zero-size markers \<^verbatim>\<open>marker\<close> (at the address \<open>0x1010\<close> inside \<^verbatim>\<open>main\<close>) and
  \<^verbatim>\<open>etext\<close> (at its end) precede the function \<^verbatim>\<open>main\<close>.
\<close>

definition text_section :: Section where
  "text_section = \<lparr>shdr = \<lparr>sh_name = 1, sh_type = SHT_PROGBITS, sh_flags = 6,
     sh_addr = 0x1000, sh_offset = 0x1000, sh_size = 0x20, sh_link = 0, sh_info = 0,
     sh_addralign = 16, sh_entsize = 0\<rparr>, section_name = ''.text''\<rparr>"

definition symstr :: string where
  "symstr = CHR 0x00 # ''marker'' @ CHR 0x00 # ''etext'' @ CHR 0x00 # ''main'' @ [CHR 0x00]"

definition marker_sym :: Sym where
  "marker_sym = \<lparr>st_name = 1, st_info = 0, st_other = 0, st_shndx = 1, st_value = 0x1010,
     st_size = 0\<rparr>"

definition etext_sym :: Sym where
  "etext_sym = \<lparr>st_name = 8, st_info = 0x10, st_other = 0, st_shndx = 1, st_value = 0x1020,
     st_size = 0\<rparr>"

definition main_sym :: Sym where
  "main_sym = \<lparr>st_name = 14, st_info = 0x12, st_other = 0, st_shndx = 1, st_value = 0x1000,
     st_size = 0x20\<rparr>"

definition text_image :: Object where
  "text_image =
     Object ''a.out'' '''' Map.empty [nullSection, text_section]
       (load_namedSection [nullSection, text_section]) Map.empty False None None None
       \<lparr>syms = [undef, marker_sym, etext_sym, main_sym], strings = symstr\<rparr>
       \<lparr>syms = [], strings = ''''\<rparr> None None"

text \<open>
  An image whose \<^verbatim>\<open>.gnu.version_r\<close> section needs version 2,
  \<^verbatim>\<open>GLIBC_2.2.5\<close>, of \<^verbatim>\<open>libc.so.6\<close>: 32 bytes of strings, one \<^verbatim>\<open>Verneed\<close>
  record and one \<^verbatim>\<open>Vernaux\<close> record.
\<close>

definition versioned_bytes :: string where
  "versioned_bytes =
     [CHR 0x00, CHR 0x6c, CHR 0x69, CHR 0x62, CHR 0x63, CHR 0x2e, CHR 0x73, CHR 0x6f,
      CHR 0x2e, CHR 0x36, CHR 0x00, CHR 0x47, CHR 0x4c, CHR 0x49, CHR 0x42, CHR 0x43,
      CHR 0x5f, CHR 0x32, CHR 0x2e, CHR 0x32, CHR 0x2e, CHR 0x35, CHR 0x00, CHR 0x00,
      CHR 0x00, CHR 0x00, CHR 0x00, CHR 0x00, CHR 0x00, CHR 0x00, CHR 0x00, CHR 0x00,
      CHR 0x01, CHR 0x00, CHR 0x01, CHR 0x00, CHR 0x01, CHR 0x00, CHR 0x00, CHR 0x00,
      CHR 0x10, CHR 0x00, CHR 0x00, CHR 0x00, CHR 0x00, CHR 0x00, CHR 0x00, CHR 0x00,
      CHR 0x75, CHR 0x1a, CHR 0x69, CHR 0x09, CHR 0x00, CHR 0x00, CHR 0x02, CHR 0x00,
      CHR 0x0b, CHR 0x00, CHR 0x00, CHR 0x00, CHR 0x00, CHR 0x00, CHR 0x00, CHR 0x00]"

definition versioned_sections :: "Section list" where
  "versioned_sections =
     [nullSection,
      \<lparr>shdr = \<lparr>sh_name = 0, sh_type = 3, sh_flags = 2, sh_addr = 0, sh_offset = 0,
         sh_size = 32, sh_link = 0, sh_info = 0, sh_addralign = 1, sh_entsize = 0\<rparr>,
       section_name = ''.dynstr''\<rparr>,
      \<lparr>shdr = \<lparr>sh_name = 0, sh_type = SHT_GNU_verneed, sh_flags = 2, sh_addr = 0,
         sh_offset = 32, sh_size = 32, sh_link = 1, sh_info = 1, sh_addralign = 8,
         sh_entsize = 0\<rparr>,
       section_name = ''.gnu.version_r''\<rparr>]"

definition versioned_image :: Object where
  "versioned_image =
     Object ''libfoo.so'' versioned_bytes Map.empty versioned_sections
       (load_namedSection versioned_sections)
       [DT_VERNEEDNUM \<mapsto> [\<lparr>d_tag = DT_VERNEEDNUM, d_val = 1\<rparr>]]
       False None None None
       \<lparr>syms = [], strings = []\<rparr> \<lparr>syms = [], strings = []\<rparr> None None"

text \<open>
  The same sections in an image whose dynamic table has no \<^verbatim>\<open>DT_VERNEEDNUM\<close> entry.
\<close>

definition unnumbered_image :: Object where
  "unnumbered_image =
     Object ''libfoo.so'' versioned_bytes Map.empty versioned_sections
       (load_namedSection versioned_sections) Map.empty
       False None None None
       \<lparr>syms = [], strings = []\<rparr> \<lparr>syms = [], strings = []\<rparr> None None"

text \<open>
  An image with two note segments: 36 bytes with the notes \<^verbatim>\<open>ABC\<close> (type 1, no
  descriptor) and \<^verbatim>\<open>X\<close> (type 2, one byte), then 20 bytes with the note
  \<^verbatim>\<open>GNU\<close> (type 3, four bytes). The program headers are a parameter.
\<close>

definition note_bytes :: string where
  "note_bytes =
     [CHR 0x04, CHR 0x00, CHR 0x00, CHR 0x00, CHR 0x00, CHR 0x00, CHR 0x00, CHR 0x00,
      CHR 0x01, CHR 0x00, CHR 0x00, CHR 0x00, CHR 0x41, CHR 0x42, CHR 0x43, CHR 0x00,
      CHR 0x02, CHR 0x00, CHR 0x00, CHR 0x00, CHR 0x01, CHR 0x00, CHR 0x00, CHR 0x00,
      CHR 0x02, CHR 0x00, CHR 0x00, CHR 0x00, CHR 0x58, CHR 0x00, CHR 0x00, CHR 0x00,
      CHR 0x7f, CHR 0x00, CHR 0x00, CHR 0x00, CHR 0x04, CHR 0x00, CHR 0x00, CHR 0x00,
      CHR 0x04, CHR 0x00, CHR 0x00, CHR 0x00, CHR 0x03, CHR 0x00, CHR 0x00, CHR 0x00,
      CHR 0x47, CHR 0x4e, CHR 0x55, CHR 0x00, CHR 0xde, CHR 0xad, CHR 0xbe, CHR 0xef]"

definition image_of_notes :: "Phdr list \<Rightarrow> Object" where
  "image_of_notes hdrs =
     Object ''core'' note_bytes (load_programHeaders (sort_key p_vaddr) hdrs) [nullSection] Map.empty Map.empty
       False None None None
       \<lparr>syms = [], strings = []\<rparr> \<lparr>syms = [], strings = []\<rparr> None None"


section \<open>Debug companion\<close>

text \<open>
  Modelled from the spec: the Context the object consumes, declared outside
  \<^verbatim>\<open>elf.cc\<close>: \<^verbatim>\<open>options.noExtDebug\<close>, \<^verbatim>\<open>verbose\<close>, the optional log sink
  \<^verbatim>\<open>debug\<close> (here: whether it is set), the optional debuginfod handle and the ordered
  list of debug directories. The handle is the lookup by build ID: no file, a file whose
  image the constructor rejects, or the image; a build without debuginfod is a context
  without a handle.
\<close>

record Context =
  noExtDebug :: bool
  verbose :: int
  debug :: bool
  debuginfod :: "(string \<Rightarrow> (error + Object) option) option"
  getDebugDirectories :: "string list"

text \<open>
  The files the lookup sees: \<^verbatim>\<open>access(path, R_OK) == 0\<close>, \<^verbatim>\<open>stat\<close> with
  \<^verbatim>\<open>S_ISDIR\<close>, and the tables that the constructor reads from the file at a path (no
  entry when the reader or the constructor throws).
\<close>

record FileSystem =
  access :: "string \<Rightarrow> bool"
  isdir :: "string \<Rightarrow> bool"
  elf_file :: "string \<rightharpoonup> Object"

text \<open>
  The constructor over the tables read from the image: its initialiser list sets
  \<^verbatim>\<open>debugLoaded(isDebug)\<close> and \<^verbatim>\<open>lastSegmentForAddress(nullptr)\<close> and leaves
  \<^verbatim>\<open>debugObject\<close> null.
\<close>

fun Object_ctor :: "bool \<Rightarrow> Object \<Rightarrow> Object" where
  "Object_ctor isDebug (Object n i ph sh ns dn dl dobj dd l ds dy g h) =
     Object n i ph sh ns dn isDebug None dd None ds dy g h"

fun set_debugLoaded :: "bool \<Rightarrow> Object \<Rightarrow> Object" where
  "set_debugLoaded b (Object n i ph sh ns dn dl dobj dd l ds dy g h) =
     Object n i ph sh ns dn b dobj dd l ds dy g h"

fun set_debugObject :: "Object option \<Rightarrow> Object \<Rightarrow> Object" where
  "set_debugObject d (Object n i ph sh ns dn dl dobj dd l ds dy g h) =
     Object n i ph sh ns dn dl d dd l ds dy g h"

text \<open>
  \<^verbatim>\<open>std::make_shared<Object>(context, std::make_shared<MmapReader>(context, path), true)\<close>:
  the companion at a path, or nothing when the reader or the constructor throws.
\<close>

definition load_debug :: "FileSystem \<Rightarrow> string \<Rightarrow> Object option" where
  "load_debug fs path = map_option (Object_ctor True) (elf_file fs path)"

text \<open>
  Modelled from the spec: \<^verbatim>\<open>Context::getDebugImage(relpath)\<close> searches the debug
  directories, in order, for an image at the relative path.
\<close>

fun getDebugImage_in :: "FileSystem \<Rightarrow> string list \<Rightarrow> string \<Rightarrow> Object option" where
  "getDebugImage_in fs [] relpath = None"
| "getDebugImage_in fs (dir # dirs) relpath =
     (case load_debug fs (dir @ ''/'' @ relpath) of
        Some d \<Rightarrow> Some d
      | None \<Rightarrow> getDebugImage_in fs dirs relpath)"

definition getDebugImage :: "Context \<Rightarrow> FileSystem \<Rightarrow> string \<Rightarrow> Object option" where
  "getDebugImage ctx fs relpath = getDebugImage_in fs (getDebugDirectories ctx) relpath"

text \<open>
  Modelled from the spec: \<^verbatim>\<open>Context::basename\<close> and \<^verbatim>\<open>Context::dirname\<close>, the part
  of a path after its last slash and the part before it (\<^verbatim>\<open>.\<close> for a path without one).
\<close>

definition basename :: "string \<Rightarrow> string" where
  "basename path = rev (takeWhile (\<lambda>c. c \<noteq> CHR ''/'') (rev path))"

definition dirname :: "string \<Rightarrow> string" where
  "dirname path =
     (if CHR ''/'' \<in> set path then rev (drop 1 (dropWhile (\<lambda>c. c \<noteq> CHR ''/'') (rev path)))
      else ''.'')"

text \<open>
  The first loop of \<^verbatim>\<open>getDebug\<close>: in every debug directory that is accessible and a
  directory, the file \<^verbatim>\<open><dir>/<execName>.debug\<close>, when it is readable and loads. The
  first one that loads is the result, and \<^verbatim>\<open>getDebug\<close> returns it at once.
\<close>

fun by_exec_name :: "FileSystem \<Rightarrow> string \<Rightarrow> string list \<Rightarrow> Object option" where
  "by_exec_name fs execName [] = None"
| "by_exec_name fs execName (dir # dirs) =
     (if access fs dir \<and> isdir fs dir \<and> access fs (dir @ ''/'' @ execName @ ''.debug'')
      then (case load_debug fs (dir @ ''/'' @ execName @ ''.debug'') of
              Some d \<Rightarrow> Some d
            | None \<Rightarrow> by_exec_name fs execName dirs)
      else by_exec_name fs execName dirs)"

text \<open>
  The loop over \<^verbatim>\<open>notes()\<close> up to the first note named \<^verbatim>\<open>GNU\<close> of type
  \<^verbatim>\<open>GNU_BUILD_ID\<close>, where the source breaks. The fuel bounds the number of steps.
\<close>

fun find_build_id :: "nat \<Rightarrow> Object \<Rightarrow> Notes_iterator \<Rightarrow> (error + NoteDesc option) option" where
  "find_build_id 0 obj it = None"
| "find_build_id (Suc fuel) obj it =
     (case Notes_end obj of
        Inl e \<Rightarrow> Some (Inl e)
      | Inr e \<Rightarrow>
          if iterator_eq it e then Some (Inr None)
          else if NoteDesc_name (deref it) = ''GNU'' \<and> n_type (note_hdr (deref it)) = GNU_BUILD_ID
          then Some (Inr (Some (deref it)))
          else
            (case operator_inc obj it of
               Inl err \<Rightarrow> Some (Inl err)
             | Inr it' \<Rightarrow> find_build_id fuel obj it'))"

definition build_id_note :: "nat \<Rightarrow> Object \<Rightarrow> (error + NoteDesc option) option" where
  "build_id_note fuel obj =
     (case Notes_begin obj of
        Inl e \<Rightarrow> Some (Inl e)
      | Inr it \<Rightarrow> find_build_id fuel obj it)"

text \<open>
  The relative path of the companion of a build ID: \<^verbatim>\<open>.build-id/\<close>, the first byte in
  two hexadecimal digits, a slash, the other bytes, \<^verbatim>\<open>.debug\<close>. The source reads
  \<^verbatim>\<open>buildID[0]\<close> of the vector also when the descriptor is empty: a read outside the
  array.
\<close>

definition hex2 :: "char \<Rightarrow> string" where
  "hex2 c = [''0123456789abcdef'' ! (of_char c div 16), ''0123456789abcdef'' ! (of_char c mod 16)]"

definition build_id_path :: "string \<Rightarrow> error + string" where
  "build_id_path buildID =
     (if buildID = [] then Inl BadIndex
      else Inr (''.build-id/'' @ hex2 (hd buildID) @ ''/'' @ concat (map hex2 (tl buildID))
                @ ''.debug''))"

text \<open>
  The lookup by \<^verbatim>\<open>.gnu_debuglink\<close>: for every debug directory in which the linked name
  is readable, \<^verbatim>\<open>getDebugImage(link)\<close>, up to the first that gives an image; else the
  linked name in the directory of the executable.
\<close>

fun by_debuglink_dirs :: "Context \<Rightarrow> FileSystem \<Rightarrow> string \<Rightarrow> string list \<Rightarrow> Object option" where
  "by_debuglink_dirs ctx fs link [] = None"
| "by_debuglink_dirs ctx fs link (debug_dir # dirs) =
     (if access fs (debug_dir @ ''/'' @ link)
      then (case getDebugImage ctx fs link of
              Some d \<Rightarrow> Some d
            | None \<Rightarrow> by_debuglink_dirs ctx fs link dirs)
      else by_debuglink_dirs ctx fs link dirs)"

definition by_debuglink ::
  "Inflate \<Rightarrow> Context \<Rightarrow> FileSystem \<Rightarrow> Object \<Rightarrow> error + Object option" where
  "by_debuglink zlib ctx fs obj =
     (let hdr = getSection obj ''.gnu_debuglink'' SHT_PROGBITS
      in if Section_bool hdr
         then (case readString_of (Section_io zlib obj hdr) 0 of
                 Inl e \<Rightarrow> Inl e
               | Inr link \<Rightarrow>
                   (let dir = dirname (io_name obj)
                    in case by_debuglink_dirs ctx fs link (getDebugDirectories ctx) of
                         Some d \<Rightarrow> Inr (Some d)
                       | None \<Rightarrow> Inr (load_debug fs (dir @ ''/'' @ link))))
         else Inr None)"

text \<open>
  The lookup by debuginfod, when a build ID was read and the context has a handle. The
  failure of the lookup is logged through \<^verbatim>\<open>*context.debug\<close> whenever \<^verbatim>\<open>verbose\<close>
  is set, a null sink or not; the constructor's exception is not caught.
\<close>

definition by_debuginfod :: "Context \<Rightarrow> string \<Rightarrow> error + Object option" where
  "by_debuginfod ctx buildID =
     (case debuginfod ctx of
        None \<Rightarrow> Inr None
      | Some find_debuginfo \<Rightarrow>
          if buildID = [] then Inr None
          else (case find_debuginfo buildID of
                  None \<Rightarrow> if verbose ctx \<noteq> 0 \<and> \<not> debug ctx then Inl NullPointer else Inr None
                | Some (Inl e) \<Rightarrow> Inl e
                | Some (Inr d) \<Rightarrow> Inr (Some (Object_ctor True d))))"

text \<open>
  The prelink compensation: \<^verbatim>\<open>sh_addr += diff\<close> on every section header and
  \<^verbatim>\<open>p_vaddr += diff\<close> on every program header of every type of the companion.
\<close>

definition add_sh_addr :: "Addr \<Rightarrow> Section \<Rightarrow> Section" where
  "add_sh_addr diff sect = sect\<lparr>shdr := (shdr sect)\<lparr>sh_addr := sh_addr (shdr sect) + diff\<rparr>\<rparr>"

definition add_p_vaddr :: "Addr \<Rightarrow> Phdr \<Rightarrow> Phdr" where
  "add_p_vaddr diff sect = sect\<lparr>p_vaddr := p_vaddr sect + diff\<rparr>"

fun prelink_adjust :: "Addr \<Rightarrow> Object \<Rightarrow> Object" where
  "prelink_adjust diff (Object n i ph sh ns dn dl dobj dd l ds dy g h) =
     Object n i (map_option (map (add_p_vaddr diff)) \<circ> ph) (map (add_sh_addr diff) sh)
       ns dn dl dobj dd l ds dy g h"

text \<open>
  The end of \<^verbatim>\<open>getDebug\<close>, from the test \<^verbatim>\<open>if (!debugObject)\<close> on: the two messages
  at \<^verbatim>\<open>verbose >= 2\<close> go through \<^verbatim>\<open>*context.debug\<close> without a test of the sink;
  the comparison of the \<^verbatim>\<open>.dynamic\<close> addresses and the compensation, under
  \<^verbatim>\<open>d.shdr.sh_addr != s.shdr.sh_addr && context.debug\<close>.
\<close>

definition compensate :: "Context \<Rightarrow> Object \<Rightarrow> Object option \<Rightarrow> (error + Object option) \<times> Object" where
  "compensate ctx obj dbg =
     (case dbg of
        None \<Rightarrow>
          if 2 \<le> verbose ctx \<and> \<not> debug ctx then (Inl NullPointer, set_debugObject None obj)
          else (Inr None, set_debugObject None obj)
      | Some companion \<Rightarrow>
          if 2 \<le> verbose ctx \<and> \<not> debug ctx
          then (Inl NullPointer, set_debugObject (Some companion) obj)
          else
            (let s = getSection obj ''.dynamic'' SHT_NULL;
                 d = getSection companion ''.dynamic'' SHT_NULL
             in if sh_addr (shdr d) \<noteq> sh_addr (shdr s) \<and> debug ctx
                then (let diff = sh_addr (shdr s) - sh_addr (shdr d);
                          adjusted = prelink_adjust diff companion
                      in (Inr (Some adjusted), set_debugObject (Some adjusted) obj))
                else (Inr (Some companion), set_debugObject (Some companion) obj)))"

text \<open>
  The discovery of \<^verbatim>\<open>getDebug\<close>, after the latch is set: by executable name (with
  the return of the companion as it was loaded), by build ID, by \<^verbatim>\<open>.gnu_debuglink\<close>, by
  debuginfod, then the compensation. The result is the returned pointer or the
  exception (of the note readers, of the reader of the \<^verbatim>\<open>.gnu_debuglink\<close> section, of
  debuginfod, of a null log sink), and the object with its \<^verbatim>\<open>debugObject\<close>; \<open>None\<close> is a scan of the
  notes that has not ended within the fuel.
\<close>

definition discover ::
  "Inflate \<Rightarrow> nat \<Rightarrow> Context \<Rightarrow> FileSystem \<Rightarrow> Object
     \<Rightarrow> ((error + Object option) \<times> Object) option" where
  "discover zlib fuel ctx fs obj =
     (case by_exec_name fs (basename (io_name obj)) (getDebugDirectories ctx) of
        Some companion \<Rightarrow> Some (Inr (Some companion), set_debugObject (Some companion) obj)
      | None \<Rightarrow>
          (case build_id_note fuel obj of
             None \<Rightarrow> None
           | Some (Inl e) \<Rightarrow> Some (Inl e, obj)
           | Some (Inr None) \<Rightarrow>
               (case (if debugObject obj = None then by_debuglink zlib ctx fs obj
                      else Inr (debugObject obj)) of
                  Inl e \<Rightarrow> Some (Inl e, obj)
                | Inr dbg \<Rightarrow> Some (compensate ctx obj dbg))
           | Some (Inr (Some note)) \<Rightarrow>
               (let buildID = NoteDesc_data note
                in case build_id_path buildID of
                     Inl e \<Rightarrow> Some (Inl e, obj)
                   | Inr path \<Rightarrow>
                       (case (case getDebugImage ctx fs path of
                                None \<Rightarrow> by_debuglink zlib ctx fs obj
                              | Some d \<Rightarrow> Inr (Some d)) of
                          Inl e \<Rightarrow> Some (Inl e, set_debugObject None obj)
                        | Inr dbg \<Rightarrow>
                            if dbg = None
                            then (case by_debuginfod ctx buildID of
                                    Inl e \<Rightarrow> Some (Inl e, set_debugObject None obj)
                                  | Inr dbg \<Rightarrow> Some (compensate ctx obj dbg))
                            else Some (compensate ctx obj dbg)))))"

text \<open>
  \<^verbatim>\<open>Object::getDebug\<close>: the cached pointer when the latch is set or
  \<^verbatim>\<open>context.options.noExtDebug\<close> holds; else the latch is set and the discovery runs.
\<close>

definition getDebug ::
  "Inflate \<Rightarrow> nat \<Rightarrow> Context \<Rightarrow> FileSystem \<Rightarrow> Object
     \<Rightarrow> ((error + Object option) \<times> Object) option" where
  "getDebug zlib fuel ctx fs obj =
     (if debugLoaded obj \<or> noExtDebug ctx then Some (Inr (debugObject obj), obj)
      else discover zlib fuel ctx fs (set_debugLoaded True obj))"

text \<open>
  A program with a \<^verbatim>\<open>.dynamic\<close> section at \<open>0x2000\<close> and a \<^verbatim>\<open>.gnu_debuglink\<close>
  to \<^verbatim>\<open>prog.dbg\<close>, and a companion whose \<^verbatim>\<open>.dynamic\<close> section is at \<open>0x1000\<close>;
  a file system with the debug directory and the companion at one path in it; a context
  with that debug directory.
\<close>

definition SHT_DYNAMIC :: Word where "SHT_DYNAMIC = 6"

definition debuglink_section :: Section where
  "debuglink_section = \<lparr>shdr = \<lparr>sh_name = 0, sh_type = SHT_PROGBITS, sh_flags = 0, sh_addr = 0,
     sh_offset = 0, sh_size = 12, sh_link = 0, sh_info = 0, sh_addralign = 4,
     sh_entsize = 0\<rparr>, section_name = ''.gnu_debuglink''\<rparr>"

definition prog_image :: Object where
  "prog_image =
     Object ''/opt/app/bin/prog'' (''prog.dbg'' @ [CHR 0x00, CHR 0x00, CHR 0x00, CHR 0x00])
       Map.empty
       [nullSection, section_at ''.dynamic'' SHT_DYNAMIC 0x2000, debuglink_section]
       (load_namedSection
          [nullSection, section_at ''.dynamic'' SHT_DYNAMIC 0x2000, debuglink_section])
       Map.empty False None None None
       \<lparr>syms = [], strings = []\<rparr> \<lparr>syms = [], strings = []\<rparr> None None"

definition prog_debug :: Object where
  "prog_debug =
     Object ''prog.dbg'' [] (load_programHeaders (sort_key p_vaddr) [load_segment 0 0x1800])
       [nullSection, section_at ''.text'' SHT_NOBITS 0x400,
        section_at ''.dynamic'' SHT_NOBITS 0x1000]
       (load_namedSection
          [nullSection, section_at ''.text'' SHT_NOBITS 0x400,
           section_at ''.dynamic'' SHT_NOBITS 0x1000])
       Map.empty False None None None
       \<lparr>syms = [], strings = []\<rparr> \<lparr>syms = [], strings = []\<rparr> None None"

definition debug_fs :: "string \<Rightarrow> FileSystem" where
  "debug_fs file =
     \<lparr>access = (\<lambda>p. p = ''/usr/lib/debug'' \<or> p = file),
      isdir = (\<lambda>p. p = ''/usr/lib/debug''),
      elf_file = [file \<mapsto> prog_debug]\<rparr>"

definition debug_context :: "bool \<Rightarrow> bool \<Rightarrow> Context" where
  "debug_context noext sink =
     \<lparr>noExtDebug = noext, verbose = 0, debug = sink, debuginfod = None,
      getDebugDirectories = [''/usr/lib/debug'']\<rparr>"

text \<open>The addresses of an image: of its section headers and of its loadable segments.\<close>

definition addresses :: "Object \<Rightarrow> Addr list \<times> Addr list" where
  "addresses d =
     (map (\<lambda>s. sh_addr (shdr s)) (sectionHeaders d), map p_vaddr (getSegments d PT_LOAD))"

text \<open>What a call of \<^verbatim>\<open>getDebug\<close> returns, the companion seen through its addresses.\<close>

definition returned_addresses ::
  "((error + Object option) \<times> Object) option \<Rightarrow> (error + (Addr list \<times> Addr list) option) option" where
  "returned_addresses r = map_option (\<lambda>(res, obj). map_sum id (map_option addresses) res) r"

section \<open>Segment lookup\<close>

lemma lower_bound_unfold_true:
  "0 < len \<Longrightarrow> cmp (xs ! (first + len div 2)) \<Longrightarrow>
   lower_bound xs cmp first len =
   lower_bound xs cmp (first + len div 2 + 1) (len - len div 2 - 1)"
  by (subst lower_bound.simps) (simp add: Let_def)

lemma lower_bound_unfold_false:
  "0 < len \<Longrightarrow> \<not> cmp (xs ! (first + len div 2)) \<Longrightarrow>
   lower_bound xs cmp first len = lower_bound xs cmp first (len div 2)"
  by (subst lower_bound.simps) (simp add: Let_def)

lemma lower_bound_range:
  "first + len \<le> length xs \<Longrightarrow>
   first \<le> lower_bound xs cmp first len \<and> lower_bound xs cmp first len \<le> first + len"
proof (induction xs cmp first len rule: lower_bound.induct)
  case (1 xs cmp first len)
  show ?case
  proof (cases "0 < len")
    case False then show ?thesis by (simp add: lower_bound.simps)
  next
    case True
    show ?thesis
    proof (cases "cmp (xs ! (first + len div 2))")
      case c: True
      have p: "first + len div 2 + 1 + (len - len div 2 - 1) \<le> length xs"
        using "1.prems" True by simp
      have "first \<le> lower_bound xs cmp (first + len div 2 + 1) (len - len div 2 - 1) \<and>
            lower_bound xs cmp (first + len div 2 + 1) (len - len div 2 - 1) \<le> first + len"
        using "1.IH"(1)[OF True refl refl c p] True by simp
      then show ?thesis by (simp only: lower_bound_unfold_true[where cmp=cmp and xs=xs and first=first and len=len, OF True c])
    next
      case c: False
      have p: "first + len div 2 \<le> length xs"
        using "1.prems" div_le_dividend[of len 2] by linarith
      have "first \<le> lower_bound xs cmp first (len div 2) \<and>
            lower_bound xs cmp first (len div 2) \<le> first + len"
        using "1.IH"(2)[OF True refl refl c p] div_le_dividend[of len 2] by linarith
      then show ?thesis by (simp only: lower_bound_unfold_false[where cmp=cmp and xs=xs and first=first and len=len, OF True c])
    qed
  qed
qed

lemma lower_bound_spec:
  "partitioned xs cmp \<Longrightarrow> first + len \<le> length xs \<Longrightarrow>
   (\<forall>i. i < first \<longrightarrow> cmp (xs ! i)) \<Longrightarrow>
   (\<forall>i. first + len \<le> i \<and> i < length xs \<longrightarrow> \<not> cmp (xs ! i)) \<Longrightarrow>
   (\<forall>i. i < lower_bound xs cmp first len \<longrightarrow> cmp (xs ! i)) \<and>
   (\<forall>i. lower_bound xs cmp first len \<le> i \<and> i < length xs \<longrightarrow> \<not> cmp (xs ! i))"
proof (induction xs cmp first len rule: lower_bound.induct)
  case (1 xs cmp first len)
  show ?case
  proof (cases "0 < len")
    case False then show ?thesis using "1.prems" by (simp add: lower_bound.simps)
  next
    case True
    let ?m = "first + len div 2"
    have mlt: "?m < length xs" using True "1.prems"(2) by (simp add: less_le_trans)
    show ?thesis
    proof (cases "cmp (xs ! ?m)")
      case c: True
      have a: "\<forall>i. i < ?m + 1 \<longrightarrow> cmp (xs ! i)"
      proof (intro allI impI)
        fix i assume "i < ?m + 1"
        then have "i = ?m \<or> i < ?m" by auto
        then show "cmp (xs ! i)" using c mlt "1.prems"(1) unfolding partitioned_def by blast
      qed
      have b: "\<forall>i. ?m + 1 + (len - len div 2 - 1) \<le> i \<and> i < length xs \<longrightarrow> \<not> cmp (xs ! i)"
        using "1.prems"(4) True by auto
      have c2: "?m + 1 + (len - len div 2 - 1) \<le> length xs" using "1.prems"(2) True by auto
      show ?thesis
        using "1.IH"(1)[OF True refl refl c "1.prems"(1) c2 a b]
        by (simp only: lower_bound_unfold_true[where cmp=cmp and xs=xs and first=first and len=len, OF True c])
    next
      case c: False
      have b: "\<forall>i. first + len div 2 \<le> i \<and> i < length xs \<longrightarrow> \<not> cmp (xs ! i)"
      proof (intro allI impI)
        fix i assume h: "?m \<le> i \<and> i < length xs"
        then have "i = ?m \<or> ?m < i" by auto
        then show "\<not> cmp (xs ! i)" using c h "1.prems"(1) unfolding partitioned_def by blast
      qed
      have c2: "first + len div 2 \<le> length xs" using mlt by simp
      show ?thesis
        using "1.IH"(2)[OF True refl refl c "1.prems"(1) c2 "1.prems"(3) b]
        by (simp only: lower_bound_unfold_false[where cmp=cmp and xs=xs and first=first and len=len, OF True c])
    qed
  qed
qed


lemma nonoverlapping_nth:
  "nonoverlapping xs \<Longrightarrow> i < j \<Longrightarrow> j < length xs \<Longrightarrow>
   unat (p_vaddr (xs ! i)) + unat (p_memsz (xs ! i)) \<le> unat (p_vaddr (xs ! j))"
proof (induction xs arbitrary: i j rule: nonoverlapping.induct)
  case 1 then show ?case by simp
next
  case (2 h) then show ?case by simp
next
  case (3 h g rest)
  show ?case
  proof (cases i)
    case 0
    show ?thesis
    proof (cases "j = 1")
      case True then show ?thesis using 0 "3.prems" by simp
    next
      case False
      then obtain j' where j': "j = Suc j'" "0 < j'" using "3.prems" 0 by (cases j) auto
      have "unat (p_vaddr g) + unat (p_memsz g) \<le> unat (p_vaddr ((g # rest) ! j'))"
        using "3.IH"[of 0 j'] "3.prems" j' by simp
      then show ?thesis using 0 j' "3.prems"(1) by simp
    qed
  next
    case (Suc i')
    then obtain j' where j': "j = Suc j'" "i' < j'" using "3.prems" by (cases j) auto
    show ?thesis using "3.IH"[of i' j'] "3.prems" Suc j' by simp
  qed
qed

lemma nonoverlapping_nowrap:
  "nonoverlapping xs \<Longrightarrow> i < length xs \<Longrightarrow>
   unat (p_vaddr (xs ! i)) + unat (p_memsz (xs ! i)) < 2 ^ 64"
proof (induction xs arbitrary: i rule: nonoverlapping.induct)
  case 1 then show ?case by simp
next
  case (2 h) then show ?case by simp
next
  case (3 h g rest)
  show ?case
  proof (cases i)
    case 0
    have "unat (p_vaddr g) < 2 ^ 64" using unsigned_less[of "p_vaddr g", where 'a=nat] by simp
    then show ?thesis using 0 "3.prems"(1) by simp
  next
    case (Suc i')
    then show ?thesis using "3.IH"[of i'] "3.prems" by simp
  qed
qed

lemma unat_end:
  "unat (p_vaddr h) + unat (p_memsz h) < 2 ^ 64 \<Longrightarrow>
   unat (p_vaddr h + p_memsz h) = unat (p_vaddr h) + unat (p_memsz h)"
  using unat_add_lem[of "p_vaddr h" "p_memsz h"] by simp

lemma set_last_sel [simp]:
  "programHeaders (set_lastSegmentForAddress p obj) = programHeaders obj"
  "lastSegmentForAddress (set_lastSegmentForAddress p obj) = p"
  by (cases obj; simp)+

lemma getSegments_set_last [simp]:
  "getSegments (set_lastSegmentForAddress p obj) t = getSegments obj t"
  by (simp add: getSegments_def)

lemma covers_nat:
  "unat (p_vaddr h) + unat (p_memsz h) < 2 ^ 64 \<Longrightarrow>
   covers h a \<longleftrightarrow> unat (p_vaddr h) \<le> unat a \<and> unat a < unat (p_vaddr h) + unat (p_memsz h)"
  using unat_end[of h] by (simp add: covers_def word_le_nat_alt word_less_nat_alt)

lemma end_le_nat:
  "unat (p_vaddr h) + unat (p_memsz h) < 2 ^ 64 \<Longrightarrow>
   p_vaddr h + p_memsz h \<le> a \<longleftrightarrow> unat (p_vaddr h) + unat (p_memsz h) \<le> unat a"
  using unat_end[of h] by (simp add: word_le_nat_alt)

lemma covers_unique:
  assumes "nonoverlapping xs" "i < length xs" "j < length xs"
    "covers (xs ! i) a" "covers (xs ! j) a"
  shows "i = j"
proof (rule ccontr)
  assume ne: "i \<noteq> j"
  have ci: "unat (p_vaddr (xs ! i)) \<le> unat a \<and> unat a < unat (p_vaddr (xs ! i)) + unat (p_memsz (xs ! i))"
    using covers_nat[OF nonoverlapping_nowrap[OF assms(1,2)]] assms(4) by simp
  have cj: "unat (p_vaddr (xs ! j)) \<le> unat a \<and> unat a < unat (p_vaddr (xs ! j)) + unat (p_memsz (xs ! j))"
    using covers_nat[OF nonoverlapping_nowrap[OF assms(1,3)]] assms(5) by simp
  from ne consider "i < j" | "j < i" by linarith
  then show False
  proof cases
    case 1
    then show False using nonoverlapping_nth[OF assms(1) 1 assms(3)] ci cj by linarith
  next
    case 2
    then show False using nonoverlapping_nth[OF assms(1) 2 assms(2)] ci cj by linarith
  qed
qed

lemma nonoverlapping_partitioned:
  assumes "nonoverlapping xs"
  shows "partitioned xs (\<lambda>header. p_vaddr header + p_memsz header \<le> a)"
  unfolding partitioned_def
proof (intro allI impI)
  fix i j
  assume h: "i < j \<and> j < length xs \<and> p_vaddr (xs ! j) + p_memsz (xs ! j) \<le> a"
  then have il: "i < length xs" and jl: "j < length xs" by simp_all
  note wi = nonoverlapping_nowrap[OF assms il]
  note wj = nonoverlapping_nowrap[OF assms jl]
  have "unat (p_vaddr (xs ! j)) + unat (p_memsz (xs ! j)) \<le> unat a"
    using end_le_nat[OF wj] h by simp
  moreover have "unat (p_vaddr (xs ! i)) + unat (p_memsz (xs ! i)) \<le> unat (p_vaddr (xs ! j))"
    using nonoverlapping_nth[OF assms, of i j] h by simp
  ultimately have "unat (p_vaddr (xs ! i)) + unat (p_memsz (xs ! i)) \<le> unat a" by linarith
  then show "p_vaddr (xs ! i) + p_memsz (xs ! i) \<le> a"
    using end_le_nat[OF wi] by simp
qed

lemma lower_bound_hdrs:
  fixes a :: Off
  assumes "nonoverlapping xs"
  defines "pos \<equiv> lower_bound xs (\<lambda>header. p_vaddr header + p_memsz header \<le> a) 0 (length xs)"
  shows "pos \<le> length xs"
    and "\<And>i. i < pos \<Longrightarrow> p_vaddr (xs ! i) + p_memsz (xs ! i) \<le> a"
    and "\<And>i. pos \<le> i \<Longrightarrow> i < length xs \<Longrightarrow> \<not> p_vaddr (xs ! i) + p_memsz (xs ! i) \<le> a"
proof -
  show "pos \<le> length xs"
    using lower_bound_range[of 0 "length xs" xs] by (simp add: pos_def)
  have sp: "(\<forall>i. i < pos \<longrightarrow> p_vaddr (xs ! i) + p_memsz (xs ! i) \<le> a) \<and>
        (\<forall>i. pos \<le> i \<and> i < length xs \<longrightarrow> \<not> p_vaddr (xs ! i) + p_memsz (xs ! i) \<le> a)"
    unfolding pos_def
    by (rule lower_bound_spec[OF nonoverlapping_partitioned[OF assms(1)]]) auto
  show "\<And>i. i < pos \<Longrightarrow> p_vaddr (xs ! i) + p_memsz (xs ! i) \<le> a" using sp by blast
  show "\<And>i. pos \<le> i \<Longrightarrow> i < length xs \<Longrightarrow> \<not> p_vaddr (xs ! i) + p_memsz (xs ! i) \<le> a"
    using sp by blast
qed


lemma getSegmentForAddress_hit:
  assumes no: "nonoverlapping (getSegments obj PT_LOAD)" and ok: "cache_ok obj"
  shows "\<exists>r. fst (getSegmentForAddress obj a) = r \<and>
    (case r of
       Some k \<Rightarrow> k < length (getSegments obj PT_LOAD) \<and> covers (getSegments obj PT_LOAD ! k) a
     | None \<Rightarrow> \<forall>i < length (getSegments obj PT_LOAD). \<not> covers (getSegments obj PT_LOAD ! i) a)"
proof (cases "cache_hit obj a")
  case True
  then obtain c where c: "lastSegmentForAddress obj = Some c"
    by (auto simp: cache_hit_def split: option.splits)
  have "c < length (getSegments obj PT_LOAD)" using ok c by (simp add: cache_ok_def)
  moreover have "covers (getSegments obj PT_LOAD ! c) a"
    using True c by (simp add: cache_hit_def covers_def Let_def)
  ultimately show ?thesis using True c by (simp add: getSegmentForAddress_def)
next
  case False
  let ?xs = "getSegments obj PT_LOAD"
  let ?pos = "lower_bound ?xs (\<lambda>header. p_vaddr header + p_memsz header \<le> a) 0 (length ?xs)"
  note lb = lower_bound_hdrs[OF no, where a=a]
  show ?thesis
  proof (cases "?pos \<noteq> length ?xs \<and> p_vaddr (?xs ! ?pos) \<le> a")
    case t: True
    then have pl: "?pos < length ?xs" using lb(1) by linarith
    have "\<not> p_vaddr (?xs ! ?pos) + p_memsz (?xs ! ?pos) \<le> a" using lb(3)[of ?pos] pl by simp
    then have "covers (?xs ! ?pos) a" using t by (simp add: covers_def)
    then show ?thesis using False t pl by (simp add: getSegmentForAddress_def Let_def)
  next
    case f: False
    have "\<forall>i < length ?xs. \<not> covers (?xs ! i) a"
    proof (intro allI impI notI)
      fix i assume il: "i < length ?xs" and cv: "covers (?xs ! i) a"
      have ci: "unat (p_vaddr (?xs ! i)) \<le> unat a \<and>
                unat a < unat (p_vaddr (?xs ! i)) + unat (p_memsz (?xs ! i))"
        using covers_nat[OF nonoverlapping_nowrap[OF no il]] cv by simp
      have "\<not> p_vaddr (?xs ! i) + p_memsz (?xs ! i) \<le> a"
        using end_le_nat[OF nonoverlapping_nowrap[OF no il]] ci by simp
      then have pi: "?pos \<le> i" using lb(2)[of i] by (meson not_le_imp_less)
      then have pl: "?pos < length ?xs" using il by linarith
      have "unat (p_vaddr (?xs ! ?pos)) \<le> unat a"
      proof (cases "?pos = i")
        case True then show ?thesis using ci by simp
      next
        case False
        then have "?pos < i" using pi by linarith
        then show ?thesis using nonoverlapping_nth[OF no _ il, of ?pos] ci by linarith
      qed
      then have "p_vaddr (?xs ! ?pos) \<le> a" by (simp add: word_le_nat_alt)
      then show False using f pl by simp
    qed
    then show ?thesis using False f by (auto simp: getSegmentForAddress_def Let_def)
  qed
qed

lemma getSegmentForAddress_cache_ok:
  assumes no: "nonoverlapping (getSegments obj PT_LOAD)" and ok: "cache_ok obj"
  shows "cache_ok (snd (getSegmentForAddress obj a)) \<and>
         programHeaders (snd (getSegmentForAddress obj a)) = programHeaders obj"
proof (cases "cache_hit obj a")
  case True
  then show ?thesis using ok by (simp add: getSegmentForAddress_def)
next
  case False
  let ?xs = "getSegments obj PT_LOAD"
  let ?pos = "lower_bound ?xs (\<lambda>header. p_vaddr header + p_memsz header \<le> a) 0 (length ?xs)"
  have le: "?pos \<le> length ?xs" using lower_bound_hdrs(1)[OF no, where a=a] .
  show ?thesis
  proof (cases "?pos \<noteq> length ?xs \<and> p_vaddr (?xs ! ?pos) \<le> a")
    case t: True
    then have "?pos < length ?xs" using le by linarith
    then show ?thesis using False t
      by (simp add: getSegmentForAddress_def Let_def cache_ok_def)
  next
    case f: False
    then show ?thesis using False ok by (auto simp: getSegmentForAddress_def Let_def)
  qed
qed

lemma endVA_not_covered:
  assumes no: "nonoverlapping (getSegments obj PT_LOAD)"
    and e: "endVA obj = Inr e" and le: "e \<le> a" and il: "i < length (getSegments obj PT_LOAD)"
  shows "\<not> covers (getSegments obj PT_LOAD ! i) a"
proof
  let ?xs = "getSegments obj PT_LOAD"
  let ?n = "length ?xs - 1"
  assume cv: "covers (?xs ! i) a"
  have ee: "e = p_vaddr (?xs ! ?n) + p_memsz (?xs ! ?n)"
    using e by (auto simp: endVA_def getSegments_def Let_def split: option.splits if_splits)
  have nl: "?n < length ?xs" using il by simp
  have en: "unat (p_vaddr (?xs ! ?n)) + unat (p_memsz (?xs ! ?n)) \<le> unat a"
    using end_le_nat[OF nonoverlapping_nowrap[OF no nl]] ee le by simp
  have ci: "unat (p_vaddr (?xs ! i)) \<le> unat a \<and>
            unat a < unat (p_vaddr (?xs ! i)) + unat (p_memsz (?xs ! i))"
    using covers_nat[OF nonoverlapping_nowrap[OF no il]] cv by simp
  show False
  proof (cases "i = ?n")
    case True then show False using en ci by simp
  next
    case False
    then have "i < ?n" using il by linarith
    then show False using nonoverlapping_nth[OF no _ nl, of i] en ci by linarith
  qed
qed

text \<open>
  C3 (amended). When the \<^verbatim>\<open>PT_LOAD\<close> segments are sorted and do not overlap (each ends,
  without address wrap-around, at or before the start of the next) and the cache is null or
  points into the group, \<^verbatim>\<open>getSegmentForAddress(a)\<close> returns the segment that covers
  \<open>a\<close>, whether from the cache or from the binary search; it returns null when no
  segment covers \<open>a\<close>, in particular when \<open>a \<ge> endVA()\<close>; the call leaves the
  program headers unchanged and the cache valid.
\<close>

theorem getSegmentForAddress_nonoverlapping:
  assumes no: "nonoverlapping (getSegments obj PT_LOAD)" and ok: "cache_ok obj"
  shows "(\<forall>i < length (getSegments obj PT_LOAD).
            covers (getSegments obj PT_LOAD ! i) a \<longrightarrow> fst (getSegmentForAddress obj a) = Some i)
       \<and> ((\<forall>seg \<in> set (getSegments obj PT_LOAD). \<not> covers seg a)
            \<longrightarrow> fst (getSegmentForAddress obj a) = None)
       \<and> (\<forall>e. endVA obj = Inr e \<and> e \<le> a \<longrightarrow> fst (getSegmentForAddress obj a) = None)
       \<and> cache_ok (snd (getSegmentForAddress obj a))
       \<and> programHeaders (snd (getSegmentForAddress obj a)) = programHeaders obj"
proof -
  let ?xs = "getSegments obj PT_LOAD"
  from getSegmentForAddress_hit[OF no ok, of a]
  have h: "case fst (getSegmentForAddress obj a) of
       Some k \<Rightarrow> k < length ?xs \<and> covers (?xs ! k) a
     | None \<Rightarrow> \<forall>i < length ?xs. \<not> covers (?xs ! i) a" by simp
  have a1: "\<forall>i < length ?xs. covers (?xs ! i) a \<longrightarrow> fst (getSegmentForAddress obj a) = Some i"
  proof (intro allI impI)
    fix i assume il: "i < length ?xs" and cv: "covers (?xs ! i) a"
    show "fst (getSegmentForAddress obj a) = Some i"
    proof (cases "fst (getSegmentForAddress obj a)")
      case None then show ?thesis using h il cv by simp
    next
      case (Some k)
      then have "k < length ?xs \<and> covers (?xs ! k) a" using h by simp
      then have "k = i" using covers_unique[OF no _ il _ cv, of k] by simp
      then show ?thesis using Some by simp
    qed
  qed
  have a2: "(\<forall>seg \<in> set ?xs. \<not> covers seg a) \<longrightarrow> fst (getSegmentForAddress obj a) = None"
  proof
    assume nc: "\<forall>seg \<in> set ?xs. \<not> covers seg a"
    show "fst (getSegmentForAddress obj a) = None"
    proof (cases "fst (getSegmentForAddress obj a)")
      case None then show ?thesis .
    next
      case (Some k)
      then have "k < length ?xs \<and> covers (?xs ! k) a" using h by simp
      then show ?thesis using nc nth_mem by blast
    qed
  qed
  have a3: "\<forall>e. endVA obj = Inr e \<and> e \<le> a \<longrightarrow> fst (getSegmentForAddress obj a) = None"
  proof (intro allI impI)
    fix e assume "endVA obj = Inr e \<and> e \<le> a"
    then have "\<forall>i < length ?xs. \<not> covers (?xs ! i) a"
      using endVA_not_covered[OF no] by blast
    then have "\<forall>seg \<in> set ?xs. \<not> covers seg a" by (metis in_set_conv_nth)
    then show "fst (getSegmentForAddress obj a) = None" using a2 by blast
  qed
  show ?thesis using a1 a2 a3 getSegmentForAddress_cache_ok[OF no ok, of a] by blast
qed

lemma foldl_push_back_phdr:
  "foldl push_back_phdr m hdrs t =
     (case m t of
        None \<Rightarrow> (if filter (\<lambda>h. p_type h = t) hdrs = [] then None
                 else Some (filter (\<lambda>h. p_type h = t) hdrs))
      | Some l \<Rightarrow> Some (l @ filter (\<lambda>h. p_type h = t) hdrs))"
proof (induction hdrs arbitrary: m)
  case Nil
  then show ?case by (simp split: option.splits)
next
  case (Cons h hdrs)
  have "foldl push_back_phdr m (h # hdrs) t = foldl push_back_phdr (push_back_phdr m h) hdrs t"
    by simp
  also have "\<dots> = (case push_back_phdr m h t of
        None \<Rightarrow> (if filter (\<lambda>h. p_type h = t) hdrs = [] then None
                 else Some (filter (\<lambda>h. p_type h = t) hdrs))
      | Some l \<Rightarrow> Some (l @ filter (\<lambda>h. p_type h = t) hdrs))"
    by (rule Cons.IH)
  also have "\<dots> = (case m t of
        None \<Rightarrow> (if filter (\<lambda>h. p_type h = t) (h # hdrs) = [] then None
                 else Some (filter (\<lambda>h. p_type h = t) (h # hdrs)))
      | Some l \<Rightarrow> Some (l @ filter (\<lambda>h. p_type h = t) (h # hdrs)))"
    by (cases "m t"; cases "p_type h = t") (auto simp: push_back_phdr_def)
  finally show ?case .
qed

lemma load_programHeaders_group:
  "load_programHeaders std_sort hdrs t =
     (if filter (\<lambda>h. p_type h = t) hdrs = [] then None
      else Some (std_sort (filter (\<lambda>h. p_type h = t) hdrs)))"
  by (simp add: load_programHeaders_def foldl_push_back_phdr)

lemma sorts_by_vaddr_sort_key: "sorts_by_vaddr (sort_key p_vaddr)"
  by (simp add: sorts_by_vaddr_def)

lemma sorts_by_vaddr_set:
  "sorts_by_vaddr std_sort \<Longrightarrow> set (std_sort xs) = set xs"
  unfolding sorts_by_vaddr_def by (metis mset_eq_setD)

lemma sorts_by_vaddr_length:
  "sorts_by_vaddr std_sort \<Longrightarrow> length (std_sort xs) = length xs"
  unfolding sorts_by_vaddr_def by (metis mset_eq_length)

lemma sorts_by_vaddr_sorted:
  "sorts_by_vaddr std_sort \<Longrightarrow> sorted (map p_vaddr (std_sort xs))"
  unfolding sorts_by_vaddr_def by blast

lemma sorted_le_last:
  fixes xs :: "'a::linorder list"
  assumes "sorted xs" "x \<in> set xs"
  shows "x \<le> last xs"
proof -
  obtain i where i: "i < length xs" "xs ! i = x" using assms(2) by (auto simp: in_set_conv_nth)
  then have ne: "xs \<noteq> []" by auto
  have "xs ! i \<le> xs ! (length xs - 1)"
    using sorted_nth_mono[OF assms(1), of i "length xs - 1"] i by simp
  then show ?thesis using i ne by (simp add: last_conv_nth)
qed

lemma last_sorted_greatest:
  assumes "sorts_by_vaddr std_sort" "xs \<noteq> []"
  shows "last (std_sort xs) \<in> set xs
    \<and> (\<forall>x \<in> set xs. p_vaddr x \<le> p_vaddr (last (std_sort xs)))"
proof -
  let ?s = "std_sort xs"
  have ne: "?s \<noteq> []" using assms sorts_by_vaddr_length[OF assms(1), of xs] by auto
  have m: "last ?s \<in> set xs" using last_in_set[OF ne] sorts_by_vaddr_set[OF assms(1)] by simp
  have "\<forall>x \<in> set xs. p_vaddr x \<le> p_vaddr (last ?s)"
  proof
    fix x assume "x \<in> set xs"
    then have "p_vaddr x \<in> set (map p_vaddr ?s)"
      using sorts_by_vaddr_set[OF assms(1), of xs] by simp
    moreover have "sorted (map p_vaddr ?s)" by (rule sorts_by_vaddr_sorted[OF assms(1)])
    ultimately have "p_vaddr x \<le> last (map p_vaddr ?s)" by (rule sorted_le_last[rotated])
    then show "p_vaddr x \<le> p_vaddr (last ?s)" using ne by (simp add: last_map)
  qed
  then show ?thesis using m by blast
qed

text \<open>
  C10. For an image whose program headers were loaded by the constructor, whatever the
  order in which \<^verbatim>\<open>std::sort\<close> leaves headers of equal \<^verbatim>\<open>p_vaddr\<close>: when there is a
  \<^verbatim>\<open>PT_LOAD\<close> header, \<^verbatim>\<open>endVA()\<close> returns \<open>p_vaddr + p_memsz\<close> of the last
  element of the sorted \<^verbatim>\<open>PT_LOAD\<close> group, a segment of greatest \<open>p_vaddr\<close>; when
  there is none, the lookup of the group fails with the out-of-range error.
\<close>

theorem endVA_last_PT_LOAD:
  assumes "programHeaders obj = load_programHeaders std_sort hdrs"
    and "sorts_by_vaddr std_sort"
  shows "((\<exists>h \<in> set hdrs. p_type h = PT_LOAD) \<longrightarrow>
            (\<exists>l \<in> set hdrs. p_type l = PT_LOAD \<and>
               (\<forall>h \<in> set hdrs. p_type h = PT_LOAD \<longrightarrow> p_vaddr h \<le> p_vaddr l) \<and>
               l = last (getSegments obj PT_LOAD) \<and>
               endVA obj = Inr (p_vaddr l + p_memsz l)))
       \<and> ((\<forall>h \<in> set hdrs. p_type h \<noteq> PT_LOAD) \<longrightarrow> endVA obj = Inl OutOfRange)"
proof (intro conjI impI)
  assume ex: "\<exists>h \<in> set hdrs. p_type h = PT_LOAD"
  let ?g = "filter (\<lambda>h. p_type h = PT_LOAD) hdrs"
  let ?s = "std_sort ?g"
  have gne: "?g \<noteq> []" using ex by (simp add: filter_empty_conv)
  have sne: "?s \<noteq> []" using gne sorts_by_vaddr_length[OF assms(2), of ?g] by auto
  have grp: "programHeaders obj PT_LOAD = Some ?s"
    using assms(1) gne by (simp add: load_programHeaders_group)
  have seg: "getSegments obj PT_LOAD = ?s" using grp by (simp add: getSegments_def)
  from last_sorted_greatest[OF assms(2) gne]
  have l1: "last ?s \<in> set ?g" and l2: "\<forall>x \<in> set ?g. p_vaddr x \<le> p_vaddr (last ?s)" by blast+
  have e: "endVA obj = Inr (p_vaddr (last ?s) + p_memsz (last ?s))"
    using grp sne by (simp add: endVA_def Let_def last_conv_nth)
  show "\<exists>l \<in> set hdrs. p_type l = PT_LOAD \<and>
               (\<forall>h \<in> set hdrs. p_type h = PT_LOAD \<longrightarrow> p_vaddr h \<le> p_vaddr l) \<and>
               l = last (getSegments obj PT_LOAD) \<and>
               endVA obj = Inr (p_vaddr l + p_memsz l)"
    using l1 l2 e seg by (intro bexI[of _ "last ?s"]) auto
next
  assume "\<forall>h \<in> set hdrs. p_type h \<noteq> PT_LOAD"
  then have "filter (\<lambda>h. p_type h = PT_LOAD) hdrs = []" by (simp add: filter_empty_conv)
  then show "endVA obj = Inl OutOfRange"
    using assms(1) by (simp add: endVA_def load_programHeaders_group)
qed

lemma programHeaders_image [simp]:
  "programHeaders (image_of_segments hdrs) = load_programHeaders (sort_key p_vaddr) hdrs"
  by (simp add: image_of_segments_def)

text \<open>
  C10 on an image with two \<^verbatim>\<open>PT_LOAD\<close> headers out of order and a note segment, and
  on an image with a note segment only.
\<close>

theorem endVA_last_PT_LOAD_witness:
  "endVA (image_of_segments [load_segment 0x2000 0x500, note_segment 0x40 0x3000 0x20,
                             load_segment 0x1000 0x800]) = Inr 0x2500
   \<and> endVA (image_of_segments [note_segment 0x40 0x3000 0x20]) = Inl OutOfRange"
proof -
  let ?hs = "[load_segment 0x2000 0x500, note_segment 0x40 0x3000 0x20, load_segment 0x1000 0x800]"
  let ?ns = "[note_segment 0x40 0x3000 0x20]"
  have g: "getSegments (image_of_segments ?hs) PT_LOAD
             = [load_segment 0x1000 0x800, load_segment 0x2000 0x500]"
    by (simp add: getSegments_def load_programHeaders_group load_segment_def note_segment_def
        PT_LOAD_def PT_NOTE_def)
  have a: "endVA (image_of_segments ?hs) = Inr 0x2500"
    using endVA_last_PT_LOAD[of "image_of_segments ?hs" "sort_key p_vaddr" ?hs] g
      sorts_by_vaddr_sort_key
    by (auto simp: load_segment_def note_segment_def PT_LOAD_def PT_NOTE_def)
  have b: "endVA (image_of_segments ?ns) = Inl OutOfRange"
    using endVA_last_PT_LOAD[of "image_of_segments ?ns" "sort_key p_vaddr" ?ns]
      sorts_by_vaddr_sort_key
    by (simp add: note_segment_def PT_LOAD_def PT_NOTE_def)
  show ?thesis using a b by simp
qed

text \<open>
  C3 as stated fails when one \<^verbatim>\<open>PT_LOAD\<close> segment lies inside another: with
  \<open>[0, 100)\<close> and \<open>[16, 32)\<close> the address 50 is covered by the first segment, the
  binary search passes it by and the call returns null.
\<close>

theorem getSegmentForAddress_nested_counterexample:
  "covers (load_segment 0 100) 50
   \<and> getSegments (image_of_segments [load_segment 0 100, load_segment 16 16]) PT_LOAD
       = [load_segment 0 100, load_segment 16 16]
   \<and> fst (getSegmentForAddress
            (image_of_segments [load_segment 0 100, load_segment 16 16]) 50) = None"
  by (simp add: covers_def getSegments_def load_programHeaders_group load_segment_def PT_LOAD_def
      getSegmentForAddress_def cache_hit_def image_of_segments_def lower_bound.simps Let_def)

text \<open>C3 (amended) on two disjoint segments: a covered address and a gap.\<close>

theorem getSegmentForAddress_nonoverlapping_witness:
  "fst (getSegmentForAddress
          (image_of_segments [load_segment 0x1000 0x800, load_segment 0x2000 0x500]) 0x2100) = Some 1
   \<and> fst (getSegmentForAddress
          (image_of_segments [load_segment 0x1000 0x800, load_segment 0x2000 0x500]) 0x1900) = None"
proof -
  let ?o = "image_of_segments [load_segment 0x1000 0x800, load_segment 0x2000 0x500]"
  have g: "getSegments ?o PT_LOAD = [load_segment 0x1000 0x800, load_segment 0x2000 0x500]"
    by (simp add: getSegments_def load_programHeaders_group load_segment_def PT_LOAD_def)
  have no: "nonoverlapping (getSegments ?o PT_LOAD)"
    by (simp add: g) (simp add: load_segment_def)
  have ok: "cache_ok ?o" by (simp add: cache_ok_def image_of_segments_def)
  have c1: "covers (getSegments ?o PT_LOAD ! 1) 0x2100"
    by (simp add: g) (simp add: load_segment_def covers_def)
  have c2: "\<forall>seg \<in> set (getSegments ?o PT_LOAD). \<not> covers seg 0x1900"
    by (simp add: g) (simp add: load_segment_def covers_def)
  have l: "(1::nat) < length (getSegments ?o PT_LOAD)" by (simp add: g)
  show ?thesis
    using getSegmentForAddress_nonoverlapping[OF no ok, of "0x2100"]
          getSegmentForAddress_nonoverlapping[OF no ok, of "0x1900"] c1 c2 l
    by blast
qed

section \<open>Section lookup: resolution order\<close>

lemma std_equal_append:
  "length xs \<le> length ys \<Longrightarrow> std_equal xs (ys @ zs) = std_equal xs ys"
  by (induction xs ys rule: std_equal.induct) auto

lemma std_equal_prefix: "std_equal xs ys \<longleftrightarrow> (\<exists>zs. ys = xs @ zs)"
  by (induction xs ys rule: std_equal.induct) auto

lemma ends_with_dwo_iff: "ends_with_dwo name \<longleftrightarrow> (\<exists>p. name = p @ ''.dwo'')"
proof
  assume "ends_with_dwo name"
  then obtain zs where "rev name = rev ''.dwo'' @ zs"
    by (auto simp: ends_with_dwo_def dwosuffix_def std_equal_prefix)
  then have "name = rev zs @ ''.dwo''" by (metis rev_append rev_rev_ident)
  then show "\<exists>p. name = p @ ''.dwo''" by blast
next
  assume "\<exists>p. name = p @ ''.dwo''"
  then show "ends_with_dwo name"
    by (auto simp: ends_with_dwo_def dwosuffix_def)
qed

lemma starts_with_debug_iff: "starts_with_debug name \<longleftrightarrow> (\<exists>r. name = ''.debug_'' @ r)"
proof
  assume "starts_with_debug name"
  then have "name = ''.debug_'' @ drop 7 name"
    using append_take_drop_id[of 7 name] by (simp add: starts_with_debug_def)
  then show "\<exists>r. name = ''.debug_'' @ r" by blast
next
  assume "\<exists>r. name = ''.debug_'' @ r"
  then show "starts_with_debug name" by (auto simp: starts_with_debug_def)
qed

lemma zname_not_debug: "\<not> starts_with_debug (zname name)"
  by (simp add: zname_def starts_with_debug_def)

lemma zname_dwo_not_debug: "\<not> starts_with_debug (zname name @ ''.dwo'')"
  by (simp add: zname_def starts_with_debug_def)

lemma zname_ends:
  assumes "starts_with_debug name"
  shows "ends_with_dwo (zname name) = ends_with_dwo name"
proof -
  obtain r where n: "name = ''.debug_'' @ r" using assms starts_with_debug_iff by blast
  have z: "zname name = ''.zdebug_'' @ r" by (simp add: n zname_def)
  have e1: "ends_with_dwo name = std_equal (rev dwosuffix) (rev r @ ''_gubed'')"
    using std_equal_append[of "rev dwosuffix" "rev r @ ''_gubed''" "''.''"]
    by (simp add: n ends_with_dwo_def dwosuffix_def)
  have e2: "ends_with_dwo (zname name) = std_equal (rev dwosuffix) (rev r @ ''_gubed'')"
    unfolding z using std_equal_append[of "rev dwosuffix" "rev r @ ''_gubed''" "''z.''"]
    by (simp add: ends_with_dwo_def dwosuffix_def)
  show ?thesis using e1 e2 by simp
qed

lemma dwo_ends: "ends_with_dwo (n @ ''.dwo'')"
  by (simp add: ends_with_dwo_def dwosuffix_def)

lemma dwo_starts: "starts_with_debug (name @ ''.dwo'') = starts_with_debug name"
proof (cases "7 \<le> length name")
  case True
  then show ?thesis by (simp add: starts_with_debug_def)
next
  case False
  have a: "\<not> starts_with_debug name"
    using False by (auto simp: starts_with_debug_iff)
  have b: "\<not> starts_with_debug (name @ ''.dwo'')"
  proof
    assume "starts_with_debug (name @ ''.dwo'')"
    then obtain r where r: "name @ ''.dwo'' = ''.debug_'' @ r" using starts_with_debug_iff by blast
    have "length (name @ ''.dwo'') = length (''.debug_'' @ r)" using r by simp
    then have l: "3 \<le> length name" by simp
    have "(name @ ''.dwo'') ! length name = (''.debug_'' @ r) ! length name" using r by simp
    then have c: "CHR ''.'' = (''.debug_'' @ r) ! length name" by simp
    from l False have "length name = 3 \<or> length name = 4 \<or> length name = 5 \<or> length name = 6"
      by linarith
    then show False using c by (elim disjE) simp_all
  qed
  show ?thesis using a b by simp
qed

lemma zname_dwo: "name \<noteq> [] \<Longrightarrow> zname (name @ ''.dwo'') = zname name @ ''.dwo''"
  by (cases name) (simp_all add: zname_def)

lemma getSection_leaf:
  "\<not> starts_with_debug n \<Longrightarrow> ends_with_dwo n \<Longrightarrow>
   getSection obj n type = (case exact_match obj n type of Some s \<Rightarrow> s | None \<Rightarrow> sectionHeaders obj ! 0)"
  by (subst getSection.simps) (simp split: option.splits)

lemma getSection_exact:
  "exact_match obj n type = Some ref \<Longrightarrow> getSection obj n type = ref"
  by (subst getSection.simps) simp

lemma getSection_compressed:
  "exact_match obj n type = None \<Longrightarrow> starts_with_debug n \<Longrightarrow>
   Section_bool (getSection obj (zname n) type) \<Longrightarrow>
   getSection obj n type = getSection obj (zname n) type"
  by (subst getSection.simps) (simp add: zname_def Let_def)

lemma getSection_dwo:
  "exact_match obj n type = None \<Longrightarrow>
   \<not> (starts_with_debug n \<and> Section_bool (getSection obj (zname n) type)) \<Longrightarrow>
   \<not> ends_with_dwo n \<Longrightarrow>
   getSection obj n type = getSection obj (n @ ''.dwo'') type"
  by (subst getSection.simps) (auto simp add: zname_def Let_def)

lemma getSection_null:
  "exact_match obj n type = None \<Longrightarrow>
   \<not> (starts_with_debug n \<and> Section_bool (getSection obj (zname n) type)) \<Longrightarrow>
   ends_with_dwo n \<Longrightarrow>
   getSection obj n type = sectionHeaders obj ! 0"
  by (subst getSection.simps) (auto simp add: zname_def Let_def)

lemma getSection_zname:
  assumes "starts_with_debug name"
  shows "getSection obj (zname name) type =
     (case exact_match obj (zname name) type of
        Some s \<Rightarrow> s
      | None \<Rightarrow>
          if ends_with_dwo name then sectionHeaders obj ! 0
          else (case exact_match obj (zname name @ ''.dwo'') type of
                  Some s \<Rightarrow> s | None \<Rightarrow> sectionHeaders obj ! 0))"
proof (cases "exact_match obj (zname name) type")
  case (Some s)
  then show ?thesis by (simp add: getSection_exact)
next
  case None
  show ?thesis
  proof (cases "ends_with_dwo name")
    case True
    then have "ends_with_dwo (zname name)" using zname_ends[OF assms] by simp
    then show ?thesis using None True getSection_leaf[OF zname_not_debug, of name obj type]
      by simp
  next
    case False
    then have ne: "\<not> ends_with_dwo (zname name)" using zname_ends[OF assms] by simp
    have "getSection obj (zname name) type = getSection obj (zname name @ ''.dwo'') type"
      using getSection_dwo[OF None _ ne] zname_not_debug by simp
    also have "\<dots> = (case exact_match obj (zname name @ ''.dwo'') type of
                  Some s \<Rightarrow> s | None \<Rightarrow> sectionHeaders obj ! 0)"
      using getSection_leaf[OF zname_dwo_not_debug dwo_ends] .
    finally show ?thesis using None False by simp
  qed
qed

lemma getSection_name_dwo:
  shows "getSection obj (name @ ''.dwo'') type =
     (case exact_match obj (name @ ''.dwo'') type of
        Some s \<Rightarrow> s
      | None \<Rightarrow>
          if starts_with_debug name \<and> Section_bool (leaf obj (zname name @ ''.dwo'') type)
          then leaf obj (zname name @ ''.dwo'') type
          else sectionHeaders obj ! 0)"
proof (cases "exact_match obj (name @ ''.dwo'') type")
  case (Some s)
  then show ?thesis by (simp add: getSection_exact)
next
  case None
  show ?thesis
  proof (cases "starts_with_debug name")
    case False
    then have "\<not> starts_with_debug (name @ ''.dwo'')" by (simp add: dwo_starts)
    then show ?thesis using None False getSection_leaf[where n="name @ ''.dwo''" and obj=obj and type=type] dwo_ends[of name]
      by simp
  next
    case True
    then have ne: "name \<noteq> []" by (auto simp: starts_with_debug_def)
    have st: "starts_with_debug (name @ ''.dwo'')" using True by (simp add: dwo_starts)
    have zl: "getSection obj (zname (name @ ''.dwo'')) type = leaf obj (zname name @ ''.dwo'') type"
      using getSection_leaf[where n="zname name @ ''.dwo''" and obj=obj and type=type]
        zname_dwo_not_debug[of name] dwo_ends[of "zname name"]
      by (simp add: zname_dwo[OF ne] leaf_def)
    show ?thesis
    proof (cases "Section_bool (leaf obj (zname name @ ''.dwo'') type)")
      case sb: True
      have "getSection obj (name @ ''.dwo'') type = getSection obj (zname (name @ ''.dwo'')) type"
        using getSection_compressed[OF None st] sb zl by simp
      then show ?thesis using None True zl sb by simp
    next
      case sb: False
      have "getSection obj (name @ ''.dwo'') type = sectionHeaders obj ! 0"
        using getSection_null[OF None _ dwo_ends] sb zl by simp
      then show ?thesis using None True sb by simp
    qed
  qed
qed

lemma getSection_zname_cases:
  assumes "starts_with_debug name"
  shows "getSection obj (zname name) type = sectionHeaders obj ! 0 \<or>
         exact_match obj (zname name) type = Some (getSection obj (zname name) type) \<or>
         (\<not> ends_with_dwo name \<and>
          exact_match obj (zname name @ ''.dwo'') type = Some (getSection obj (zname name) type))"
  using getSection_zname[OF assms, of obj type]
  by (auto split: option.splits if_splits)

lemma getSection_zname_miss:
  assumes "starts_with_debug name" "exact_match obj (zname name) type = None"
    "\<not> ends_with_dwo name \<longrightarrow> exact_match obj (zname name @ ''.dwo'') type = None"
  shows "getSection obj (zname name) type = sectionHeaders obj ! 0"
  using getSection_zname[OF assms(1), of obj type] assms(2,3)
  by (auto split: option.splits if_splits)

lemma getSection_name_dwo_cases:
  "getSection obj (name @ ''.dwo'') type = sectionHeaders obj ! 0 \<or>
   exact_match obj (name @ ''.dwo'') type = Some (getSection obj (name @ ''.dwo'') type) \<or>
   (starts_with_debug name \<and>
    exact_match obj (zname name @ ''.dwo'') type = Some (getSection obj (name @ ''.dwo'') type))"
  using getSection_name_dwo[of obj name type]
  by (auto simp: leaf_def split: option.splits if_splits)

lemma getSection_name_dwo_miss:
  assumes "exact_match obj (name @ ''.dwo'') type = None"
    "starts_with_debug name \<longrightarrow> exact_match obj (zname name @ ''.dwo'') type = None"
  shows "getSection obj (name @ ''.dwo'') type = sectionHeaders obj ! 0"
  using getSection_name_dwo[of obj name type] assms
  by (auto simp: leaf_def split: option.splits if_splits)

lemma getSection_found_or_null:
  "getSection obj name type = sectionHeaders obj ! 0 \<or>
   (\<exists>n \<in> set (lookup_order name). exact_match obj n type = Some (getSection obj name type))"
proof (cases "exact_match obj name type")
  case (Some ref)
  then show ?thesis by (simp add: getSection_exact lookup_order_def)
next
  case None
  show ?thesis
  proof (cases "starts_with_debug name \<and> Section_bool (getSection obj (zname name) type)")
    case True
    then have "getSection obj name type = getSection obj (zname name) type"
      using getSection_compressed[OF None] by simp
    then show ?thesis using getSection_zname_cases[of name obj type] True
      by (auto simp: lookup_order_def)
  next
    case False
    show ?thesis
    proof (cases "ends_with_dwo name")
      case True
      then show ?thesis using getSection_null[OF None False] by simp
    next
      case ne: False
      have "getSection obj name type = getSection obj (name @ ''.dwo'') type"
        using getSection_dwo[OF None False ne] .
      then show ?thesis using getSection_name_dwo_cases[of obj name type] ne
        by (auto simp: lookup_order_def)
    qed
  qed
qed

lemma getSection_all_miss:
  assumes "\<forall>n \<in> set (lookup_order name). exact_match obj n type = None"
  shows "getSection obj name type = sectionHeaders obj ! 0"
proof -
  have None: "exact_match obj name type = None" using assms by (simp add: lookup_order_def)
  show ?thesis
  proof (cases "starts_with_debug name \<and> Section_bool (getSection obj (zname name) type)")
    case True
    have "getSection obj (zname name) type = sectionHeaders obj ! 0"
      using getSection_zname_miss[of name obj type] assms True
      by (auto simp: lookup_order_def split: if_splits)
    then show ?thesis using getSection_compressed[OF None] True by simp
  next
    case False
    show ?thesis
    proof (cases "ends_with_dwo name")
      case True
      then show ?thesis using getSection_null[OF None False] by simp
    next
      case ne: False
      have "getSection obj (name @ ''.dwo'') type = sectionHeaders obj ! 0"
        using getSection_name_dwo_miss[of obj name type] assms ne
        by (auto simp: lookup_order_def split: if_splits)
      then show ?thesis using getSection_dwo[OF None False ne] by simp
    qed
  qed
qed

lemma enumerate_snoc: "enumerate n (xs @ [x]) = enumerate n xs @ [(n + length xs, x)]"
  by (simp add: enumerate_append_eq)

lemma load_namedSection_snoc:
  "load_namedSection (secs @ [h]) = (load_namedSection secs)(section_name h \<mapsto> length secs)"
  by (simp add: load_namedSection_def enumerate_snoc)

lemma load_namedSection_last:
  "load_namedSection secs name = Some i \<Longrightarrow>
   i < length secs \<and> secs ! i = last (filter (\<lambda>s. section_name s = name) secs)
     \<and> section_name (secs ! i) = name
     \<and> (\<forall>j. i < j \<and> j < length secs \<longrightarrow> section_name (secs ! j) \<noteq> name)"
proof (induction secs rule: rev_induct)
  case Nil
  then show ?case by (simp add: load_namedSection_def)
next
  case (snoc h secs)
  show ?case
  proof (cases "section_name h = name")
    case True
    then have "i = length secs" using snoc.prems by (simp add: load_namedSection_snoc)
    then show ?thesis using True by auto
  next
    case False
    then have "load_namedSection secs name = Some i"
      using snoc.prems by (simp add: load_namedSection_snoc)
    from snoc.IH[OF this] show ?thesis
      using False by (auto simp: nth_append less_Suc_eq)
  qed
qed

lemma load_namedSection_none:
  "load_namedSection secs name = None \<longleftrightarrow> filter (\<lambda>s. section_name s = name) secs = []"
proof (induction secs rule: rev_induct)
  case Nil
  show ?case by (simp add: load_namedSection_def)
next
  case (snoc h secs)
  then show ?case by (simp add: load_namedSection_snoc)
qed

lemma exact_match_constructed:
  assumes "namedSection obj = load_namedSection (sectionHeaders obj)"
  shows "exact_match obj name type = exact_section (sectionHeaders obj) name type"
proof (cases "load_namedSection (sectionHeaders obj) name")
  case None
  then show ?thesis
    using assms load_namedSection_none[of "sectionHeaders obj" name]
    by (simp add: exact_match_def exact_section_def)
next
  case (Some i)
  from load_namedSection_last[OF Some]
  have l: "sectionHeaders obj ! i = last (filter (\<lambda>s. section_name s = name) (sectionHeaders obj))"
    by blast
  have ne: "filter (\<lambda>s. section_name s = name) (sectionHeaders obj) \<noteq> []"
    using Some load_namedSection_none[of "sectionHeaders obj" name] by simp
  show ?thesis
    using assms Some l ne by (simp add: exact_match_def exact_section_def Let_def)
qed

lemma exact_match_unnamed:
  "namedSection obj = Map.empty \<Longrightarrow> exact_match obj name type = None"
  by (simp add: exact_match_def)

text \<open>
  C5 (amended). For an image whose section names were registered by the constructor,
  \<^verbatim>\<open>getSection(name, type)\<close> returns the exact match: of the sections that carry the
  name the last one in the section header table, when its type is the requested one (any
  type when the request is \<^verbatim>\<open>SHT_NULL\<close>); else, for a name that starts with
  \<^verbatim>\<open>.debug_\<close>, the result of the same lookup on the \<^verbatim>\<open>.z\<close> name when that result is
  a section; else, for a name that does not end in \<^verbatim>\<open>.dwo\<close>, the result of the same
  lookup with \<^verbatim>\<open>.dwo\<close> appended; else section 0. The function is total: when no name
  of the lookup order has an exact match the result is section 0, and every other result
  is the exact match of a name of the lookup order. For an image without registered
  names (no section name string table) every lookup returns section 0.
\<close>

theorem getSection_resolution_order:
  "(namedSection obj = load_namedSection (sectionHeaders obj) \<longrightarrow>
      (\<forall>ref. exact_section (sectionHeaders obj) name type = Some ref
          \<longrightarrow> getSection obj name type = ref)
    \<and> (exact_section (sectionHeaders obj) name type = None \<and> starts_with_debug name
          \<and> Section_bool (getSection obj (''.z'' @ drop 1 name) type)
        \<longrightarrow> getSection obj name type = getSection obj (''.z'' @ drop 1 name) type)
    \<and> (exact_section (sectionHeaders obj) name type = None
          \<and> \<not> (starts_with_debug name
                 \<and> Section_bool (getSection obj (''.z'' @ drop 1 name) type))
          \<and> \<not> ends_with_dwo name
        \<longrightarrow> getSection obj name type = getSection obj (name @ ''.dwo'') type)
    \<and> (exact_section (sectionHeaders obj) name type = None
          \<and> \<not> (starts_with_debug name
                 \<and> Section_bool (getSection obj (''.z'' @ drop 1 name) type))
          \<and> ends_with_dwo name
        \<longrightarrow> getSection obj name type = sectionHeaders obj ! 0)
    \<and> ((\<forall>n \<in> set (lookup_order name). exact_section (sectionHeaders obj) n type = None)
        \<longrightarrow> getSection obj name type = sectionHeaders obj ! 0)
    \<and> (getSection obj name type = sectionHeaders obj ! 0
        \<or> (\<exists>n \<in> set (lookup_order name).
              exact_section (sectionHeaders obj) n type = Some (getSection obj name type))))
   \<and> (namedSection obj = Map.empty \<longrightarrow> getSection obj name type = sectionHeaders obj ! 0)
   \<and> (starts_with_debug name \<longleftrightarrow> (\<exists>r. name = ''.debug_'' @ r))
   \<and> (ends_with_dwo name \<longleftrightarrow> (\<exists>p. name = p @ ''.dwo''))"
proof -
  have a: "(\<forall>ref. exact_section (sectionHeaders obj) name type = Some ref
          \<longrightarrow> getSection obj name type = ref)
    \<and> (exact_section (sectionHeaders obj) name type = None \<and> starts_with_debug name
          \<and> Section_bool (getSection obj (''.z'' @ drop 1 name) type)
        \<longrightarrow> getSection obj name type = getSection obj (''.z'' @ drop 1 name) type)
    \<and> (exact_section (sectionHeaders obj) name type = None
          \<and> \<not> (starts_with_debug name
                 \<and> Section_bool (getSection obj (''.z'' @ drop 1 name) type))
          \<and> \<not> ends_with_dwo name
        \<longrightarrow> getSection obj name type = getSection obj (name @ ''.dwo'') type)
    \<and> (exact_section (sectionHeaders obj) name type = None
          \<and> \<not> (starts_with_debug name
                 \<and> Section_bool (getSection obj (''.z'' @ drop 1 name) type))
          \<and> ends_with_dwo name
        \<longrightarrow> getSection obj name type = sectionHeaders obj ! 0)
    \<and> ((\<forall>n \<in> set (lookup_order name). exact_section (sectionHeaders obj) n type = None)
        \<longrightarrow> getSection obj name type = sectionHeaders obj ! 0)
    \<and> (getSection obj name type = sectionHeaders obj ! 0
        \<or> (\<exists>n \<in> set (lookup_order name).
              exact_section (sectionHeaders obj) n type = Some (getSection obj name type)))"
    if c: "namedSection obj = load_namedSection (sectionHeaders obj)"
  proof -
    have e: "exact_section (sectionHeaders obj) n type = exact_match obj n type" for n
      using exact_match_constructed[OF c] by simp
    show ?thesis
      unfolding e
      using getSection_exact[of obj name type] getSection_compressed[of obj name type]
        getSection_dwo[of obj name type] getSection_null[of obj name type]
        getSection_all_miss[of name obj type] getSection_found_or_null[of obj name type]
      unfolding zname_def by blast
  qed
  have b: "getSection obj name type = sectionHeaders obj ! 0" if "namedSection obj = Map.empty"
    using getSection_all_miss[of name obj type] exact_match_unnamed[OF that] by simp
  show ?thesis
    using a b starts_with_debug_iff[of name] ends_with_dwo_iff[of name] by blast
qed

lemma image_of_sections_constructed:
  "namedSection (image_of_sections secs) = load_namedSection (sectionHeaders (image_of_sections secs))"
  by (simp add: image_of_sections_def)

lemma compressed_image_sections:
  "sectionHeaders compressed_image
     = [nullSection, section_at ''.text'' SHT_PROGBITS 0x1000,
        section_at ''.zdebug_info'' SHT_PROGBITS 0,
        section_at ''.debug_str.dwo'' SHT_PROGBITS 0]"
  "namedSection compressed_image = load_namedSection (sectionHeaders compressed_image)"
  by (simp_all add: compressed_image_def image_of_sections_def)

lemma compressed_image_exact:
  "exact_section (sectionHeaders compressed_image) ''.debug_info'' SHT_PROGBITS = None"
  "exact_section (sectionHeaders compressed_image) ''.zdebug_info'' SHT_PROGBITS
     = Some (section_at ''.zdebug_info'' SHT_PROGBITS 0)"
  "exact_section (sectionHeaders compressed_image) ''.symtab'' SHT_NULL = None"
  "exact_section (sectionHeaders compressed_image) ''.symtab.dwo'' SHT_NULL = None"
  by (simp_all add: exact_section_def compressed_image_sections(1) section_at_def
      nullSection_def)

text \<open>
  C5 (amended) on an image that holds \<^verbatim>\<open>.zdebug_info\<close> but not \<^verbatim>\<open>.debug_info\<close>, and
  on a name that no section carries.
\<close>

theorem getSection_resolution_order_witness:
  "getSection compressed_image ''.debug_info'' SHT_PROGBITS
     = section_at ''.zdebug_info'' SHT_PROGBITS 0
   \<and> getSection compressed_image ''.symtab'' SHT_NULL = nullSection"
proof -
  note c = compressed_image_sections(2)
  have z: "getSection compressed_image ''.zdebug_info'' SHT_PROGBITS
             = section_at ''.zdebug_info'' SHT_PROGBITS 0"
    using getSection_resolution_order[of compressed_image "''.zdebug_info''" SHT_PROGBITS]
      compressed_image_exact(2) c by simp
  have sb: "Section_bool (section_at ''.zdebug_info'' SHT_PROGBITS 0)"
    by (simp add: Section_bool_def section_at_def SHT_PROGBITS_def SHT_NULL_def)
  have st: "starts_with_debug ''.debug_info''" by (simp add: starts_with_debug_def)
  have a: "getSection compressed_image ''.debug_info'' SHT_PROGBITS
             = section_at ''.zdebug_info'' SHT_PROGBITS 0"
    using getSection_resolution_order[of compressed_image "''.debug_info''" SHT_PROGBITS]
      compressed_image_exact(1) z sb st c by simp
  have lo: "lookup_order ''.symtab'' = [''.symtab'', ''.symtab.dwo'']"
    by (simp add: lookup_order_def starts_with_debug_def ends_with_dwo_def dwosuffix_def)
  have n0: "sectionHeaders compressed_image ! 0 = nullSection"
    by (simp add: compressed_image_sections(1))
  have b: "getSection compressed_image ''.symtab'' SHT_NULL = nullSection"
    using getSection_resolution_order[of compressed_image "''.symtab''" SHT_NULL]
      compressed_image_exact(3,4) lo n0 c by simp
  show ?thesis using a b by simp
qed

text \<open>
  C5 as stated fails when two sections carry one name: the table holds \<^verbatim>\<open>.data\<close> of
  type \<^verbatim>\<open>SHT_PROGBITS\<close> and, after it, \<^verbatim>\<open>.data\<close> of type \<^verbatim>\<open>SHT_NOBITS\<close>; the
  lookup of \<^verbatim>\<open>.data\<close> with type \<^verbatim>\<open>SHT_PROGBITS\<close> sees the later section only and
  returns section 0, although a section of that name and type exists.
\<close>

theorem getSection_duplicate_name_counterexample:
  "named_and_typed [nullSection, section_at ''.data'' SHT_PROGBITS 0x1000,
                    section_at ''.data'' SHT_NOBITS 0x2000] ''.data'' SHT_PROGBITS
     = Some (section_at ''.data'' SHT_PROGBITS 0x1000)
   \<and> getSection (image_of_sections [nullSection, section_at ''.data'' SHT_PROGBITS 0x1000,
                                    section_at ''.data'' SHT_NOBITS 0x2000])
        ''.data'' SHT_PROGBITS = nullSection"
proof -
  let ?o = "image_of_sections [nullSection, section_at ''.data'' SHT_PROGBITS 0x1000,
                                    section_at ''.data'' SHT_NOBITS 0x2000]"
  have e: "exact_match ?o ''.data'' SHT_PROGBITS = None"
    "exact_match ?o ''.data.dwo'' SHT_PROGBITS = None"
    by (simp_all add: exact_match_def image_of_sections_def load_namedSection_def section_at_def
        nullSection_def SHT_PROGBITS_def SHT_NOBITS_def SHT_NULL_def)
  have lo: "lookup_order ''.data'' = [''.data'', ''.data.dwo'']"
    by (simp add: lookup_order_def starts_with_debug_def ends_with_dwo_def dwosuffix_def)
  have "getSection ?o ''.data'' SHT_PROGBITS = sectionHeaders ?o ! 0"
    using getSection_all_miss[of "''.data''" ?o SHT_PROGBITS] e lo by simp
  then have g: "getSection ?o ''.data'' SHT_PROGBITS = nullSection"
    by (simp add: image_of_sections_def)
  have n: "named_and_typed [nullSection, section_at ''.data'' SHT_PROGBITS 0x1000,
                    section_at ''.data'' SHT_NOBITS 0x2000] ''.data'' SHT_PROGBITS
     = Some (section_at ''.data'' SHT_PROGBITS 0x1000)"
    by (simp add: named_and_typed_def section_at_def nullSection_def)
  show ?thesis using n g by simp
qed

section \<open>Hash-accelerated symbol lookup: soundness and reach\<close>

lemma gnu_chain_walk_sound:
  "gnu_chain_walk g name symhash idx = Inr (j, s) \<Longrightarrow> j \<noteq> 0 \<Longrightarrow>
   idx \<le> j \<and> j < length (gnu_syms g) \<and> s = gnu_syms g ! j \<and>
   readString (gnu_strings g) (unat (st_name s)) = c_str name"
proof (induction g name symhash idx rule: gnu_chain_walk.induct)
  case (1 g name symhash idx)
  from "1.prems"(1) obtain symb chainhash where
    r: "readObj (gnu_syms g) idx = Some symb"
       "readObj (gnu_chains g) (idx - unat (symoffset g)) = Some chainhash"
    by (subst (asm) gnu_chain_walk.simps) (auto split: option.splits)
  show ?case
  proof (cases "(chainhash OR 1) = (symhash OR 1)
                  \<and> readString (gnu_strings g) (unat (st_name symb)) = c_str name")
    case True
    then have "gnu_chain_walk g name symhash idx = Inr (idx, symb)"
      using r by (subst gnu_chain_walk.simps) simp
    then show ?thesis using "1.prems" r True by (auto simp: readObj_def split: if_splits)
  next
    case False
    show ?thesis
    proof (cases "chainhash AND 1 \<noteq> 0")
      case True
      then have "gnu_chain_walk g name symhash idx = Inr (0, undef)"
        using r False by (subst gnu_chain_walk.simps) auto
      then show ?thesis using "1.prems" by simp
    next
      case e: False
      have "gnu_chain_walk g name symhash idx = gnu_chain_walk g name symhash (idx + 1)"
        using r False e by (subst gnu_chain_walk.simps) auto
      then have "gnu_chain_walk g name symhash (idx + 1) = Inr (j, s)" using "1.prems"(1) by simp
      from "1.IH"[OF r(1) r(2) False e this "1.prems"(2)] show ?thesis by auto
    qed
  qed
qed

lemma GnuHash_findSymbol_sound:
  "GnuHash_findSymbol g name = Inr (j, s) \<Longrightarrow> j \<noteq> 0 \<Longrightarrow>
   j < length (gnu_syms g) \<and> s = gnu_syms g ! j \<and>
   readString (gnu_strings g) (unat (st_name s)) = c_str name"
  by (auto simp: GnuHash_findSymbol_def Let_def split: if_splits option.splits
           dest: gnu_chain_walk_sound)

lemma sysv_chain_walk_sound:
  assumes a: "sysv_chain_walk h name i = Some r"
  shows "\<forall>j s. r = Inr (j, s) \<and> j \<noteq> 0 \<longrightarrow>
      j < length (sysv_syms h) \<and> s = sysv_syms h ! j \<and>
      readString (sysv_strings h) (unat (st_name s)) = name"
proof (rule sysv_chain_walk.raw_induct[OF _ a], goal_cases)
  case (1 walk h name i r)
  show ?case
  proof (cases "i = STN_UNDEF")
    case True
    then show ?thesis using 1(2) by auto
  next
    case False
    show ?thesis
      using 1(2) False 1(1)
      by (auto simp: readObj_def split: option.splits if_splits)
  qed
qed

lemma SymHash_findSymbol_sound:
  "SymHash_findSymbol h name = Some (Inr (j, s)) \<Longrightarrow> j \<noteq> 0 \<Longrightarrow>
   j < length (sysv_syms h) \<and> s = sysv_syms h ! j \<and>
   readString (sysv_strings h) (unat (st_name s)) = name"
  using sysv_chain_walk_sound
  by (fastforce simp: SymHash_findSymbol_def split: option.splits if_splits)

lemma findDynamicSymbol_sound:
  assumes "findDynamicSymbol obj name = Some (Inr (s, j))"
  shows "(j = 0 \<longrightarrow> s = undef)
    \<and> (j \<noteq> 0 \<longrightarrow>
        (case gnu_hash_table obj of
           Some g \<Rightarrow> j < length (gnu_syms g) \<and> s = gnu_syms g ! j \<and>
                     readString (gnu_strings g) (unat (st_name s)) = c_str name
         | None \<Rightarrow>
             (case hash_table obj of
                Some h \<Rightarrow> j < length (sysv_syms h) \<and> s = sysv_syms h ! j \<and>
                          readString (sysv_strings h) (unat (st_name s)) = name
              | None \<Rightarrow> False)))"
proof (cases "gnu_hash_table obj")
  case (Some g)
  then show ?thesis using assms GnuHash_findSymbol_sound[of g name]
    by (auto simp: findDynamicSymbol_def split: sum.splits prod.splits if_splits)
next
  case None
  show ?thesis
  proof (cases "hash_table obj")
    case n: None
    then show ?thesis using assms None by (simp add: findDynamicSymbol_def)
  next
    case (Some h)
    then show ?thesis using assms None SymHash_findSymbol_sound[of h name]
      by (auto simp: findDynamicSymbol_def split: option.splits sum.splits prod.splits if_splits)
  qed
qed

lemma findDynamicSymbol_no_accelerator:
  "gnu_hash_table obj = None \<Longrightarrow> hash_table obj = None \<Longrightarrow>
   findDynamicSymbol obj name = Some (Inr (undef, 0))"
  by (simp add: findDynamicSymbol_def)

lemma gnu_chain_walk_finds:
  assumes "i < length (gnu_syms g)"
    and "readObj (gnu_chains g) (i - unat (symoffset g)) = Some ch"
    and "(ch OR 1) = (symhash OR 1)"
    and "readString (gnu_strings g) (unat (st_name (gnu_syms g ! i))) = c_str name"
    and "\<forall>k. idx \<le> k \<and> k < i \<longrightarrow>
           (\<exists>c. readObj (gnu_chains g) (k - unat (symoffset g)) = Some c \<and> c AND 1 = 0)"
    and "idx \<le> i"
  shows "\<exists>j. idx \<le> j \<and> j \<le> i \<and>
           gnu_chain_walk g name symhash idx = Inr (j, gnu_syms g ! j) \<and>
           readString (gnu_strings g) (unat (st_name (gnu_syms g ! j))) = c_str name"
  using assms(5,6)
proof (induction "i - idx" arbitrary: idx)
  case 0
  then have e: "idx = i" by simp
  have "gnu_chain_walk g name symhash i = Inr (i, gnu_syms g ! i)"
    using assms(1-4) by (subst gnu_chain_walk.simps) (simp add: readObj_def)
  then show ?case using e assms(4) by auto
next
  case (Suc n)
  then have lt: "idx < i" by simp
  then have il: "idx < length (gnu_syms g)" using assms(1) by simp
  obtain c where c: "readObj (gnu_chains g) (idx - unat (symoffset g)) = Some c" "c AND 1 = 0"
    using Suc.prems(1) lt by blast
  show ?case
  proof (cases "(c OR 1) = (symhash OR 1)
                  \<and> readString (gnu_strings g) (unat (st_name (gnu_syms g ! idx))) = c_str name")
    case True
    then have "gnu_chain_walk g name symhash idx = Inr (idx, gnu_syms g ! idx)"
      using il c by (subst gnu_chain_walk.simps) (simp add: readObj_def)
    then show ?thesis using True lt by auto
  next
    case False
    have st: "gnu_chain_walk g name symhash idx = gnu_chain_walk g name symhash (idx + 1)"
      using il c False by (subst gnu_chain_walk.simps) (auto simp: readObj_def)
    have "n = i - (idx + 1)" using Suc.hyps(2) by simp
    moreover have "\<forall>k. idx + 1 \<le> k \<and> k < i \<longrightarrow>
           (\<exists>c. readObj (gnu_chains g) (k - unat (symoffset g)) = Some c \<and> c AND 1 = 0)"
      using Suc.prems(1) by auto
    moreover have "idx + 1 \<le> i" using lt by simp
    ultimately obtain j where "idx + 1 \<le> j \<and> j \<le> i \<and>
           gnu_chain_walk g name symhash (idx + 1) = Inr (j, gnu_syms g ! j) \<and>
           readString (gnu_strings g) (unat (st_name (gnu_syms g ! j))) = c_str name"
      using Suc.hyps(1)[of "idx + 1"] by blast
    then show ?thesis using st by auto
  qed
qed

lemma sysv_chain_walk_finds:
  assumes "\<forall>m. m \<le> k \<longrightarrow>
              (\<exists>u. chain_nth h b m = Some u \<and> u \<noteq> STN_UNDEF \<and> unat u < length (sysv_syms h))"
    and "chain_nth h b k = Some t"
    and "readString (sysv_strings h) (unat (st_name (sysv_syms h ! unat t))) = name"
  shows "\<exists>j. j \<noteq> 0 \<and> j < length (sysv_syms h) \<and>
           sysv_chain_walk h name b = Some (Inr (j, sysv_syms h ! j)) \<and>
           readString (sysv_strings h) (unat (st_name (sysv_syms h ! j))) = name"
  using assms
proof (induction k arbitrary: b)
  case 0
  then have tb: "t = b" by simp
  from 0(1) have v: "b \<noteq> STN_UNDEF" "unat b < length (sysv_syms h)" by auto
  have "sysv_chain_walk h name b = Some (Inr (unat b, sysv_syms h ! unat b))"
    using v 0(3) tb by (subst sysv_chain_walk.simps) (simp add: readObj_def)
  moreover have "unat b \<noteq> 0" using v(1) by (simp add: STN_UNDEF_def unat_eq_0)
  ultimately show ?case using v 0(3) tb by blast
next
  case (Suc k)
  from Suc.prems(1)[rule_format, of 0] have v: "b \<noteq> STN_UNDEF" "unat b < length (sysv_syms h)"
    by auto
  have nz: "unat b \<noteq> 0" using v(1) by (simp add: STN_UNDEF_def unat_eq_0)
  show ?case
  proof (cases "readString (sysv_strings h) (unat (st_name (sysv_syms h ! unat b))) = name")
    case True
    have "sysv_chain_walk h name b = Some (Inr (unat b, sysv_syms h ! unat b))"
      using v True by (subst sysv_chain_walk.simps) (simp add: readObj_def)
    then show ?thesis using v nz True by blast
  next
    case False
    from Suc.prems(2) obtain nxt where n: "chains_at h (unat b) = Some nxt"
      "chain_nth h nxt k = Some t"
      by (auto split: option.splits)
    have st: "sysv_chain_walk h name b = sysv_chain_walk h name nxt"
      using v False n by (subst sysv_chain_walk.simps) (simp add: readObj_def)
    have "\<forall>m. m \<le> k \<longrightarrow>
              (\<exists>u. chain_nth h nxt m = Some u \<and> u \<noteq> STN_UNDEF \<and> unat u < length (sysv_syms h))"
    proof (intro allI impI)
      fix m assume "m \<le> k"
      then have "Suc m \<le> Suc k" by simp
      from Suc.prems(1)[rule_format, OF this] show
        "\<exists>u. chain_nth h nxt m = Some u \<and> u \<noteq> STN_UNDEF \<and> unat u < length (sysv_syms h)"
        using n(1) by simp
    qed
    from Suc.IH[OF this n(2) Suc.prems(3)] show ?thesis using st by simp
  qed
qed

lemma SymHash_findSymbol_finds:
  assumes "sysv_indexed h name k"
  shows "\<exists>j. j \<noteq> 0 \<and> j < length (sysv_syms h) \<and>
           SymHash_findSymbol h name = Some (Inr (j, sysv_syms h ! j)) \<and>
           readString (sysv_strings h) (unat (st_name (sysv_syms h ! j))) = name"
proof -
  from assms obtain nb b t where
    a: "nbucket h = Some nb" "nb \<noteq> 0"
       "buckets_at h (unat (elf_hash name) mod unat nb) = Some b"
       "\<forall>m. m \<le> k \<longrightarrow>
              (\<exists>u. chain_nth h b m = Some u \<and> u \<noteq> STN_UNDEF \<and> unat u < length (sysv_syms h))"
       "chain_nth h b k = Some t"
       "readString (sysv_strings h) (unat (st_name (sysv_syms h ! unat t))) = name"
    unfolding sysv_indexed_def by blast
  have "SymHash_findSymbol h name = sysv_chain_walk h name b"
    using a(1-3) by (simp add: SymHash_findSymbol_def)
  then show ?thesis using sysv_chain_walk_finds[OF a(4,5,6)] by simp
qed

lemma GnuHash_findSymbol_finds:
  assumes "gnu_indexed g name i"
  shows "\<exists>j. j \<noteq> 0 \<and> j < length (gnu_syms g) \<and>
           GnuHash_findSymbol g name = Inr (j, gnu_syms g ! j) \<and>
           readString (gnu_strings g) (unat (st_name (gnu_syms g ! j))) = c_str name"
proof -
  let ?h = "gnu_hash name"
  from assms obtain bloomword b ch where
    a: "bloom_size g \<noteq> 0" "nbuckets g \<noteq> 0"
       "readObj (bloom g) ((unat ?h div ELF_BITS) mod unat (bloom_size g)) = Some bloomword"
       "bloomword AND bloom_mask g ?h = bloom_mask g ?h"
       "readObj (gnu_buckets g) (unat ?h mod unat (nbuckets g)) = Some b"
       "symoffset g \<le> b" "b \<noteq> 0" "unat b \<le> i"
       "\<forall>k. unat b \<le> k \<and> k < i \<longrightarrow>
                 (\<exists>c. readObj (gnu_chains g) (k - unat (symoffset g)) = Some c \<and> c AND 1 = 0)"
       "i < length (gnu_syms g)"
       "readObj (gnu_chains g) (i - unat (symoffset g)) = Some ch"
       "(ch OR 1) = (?h OR 1)"
       "readString (gnu_strings g) (unat (st_name (gnu_syms g ! i))) = c_str name"
    unfolding gnu_indexed_def by blast
  have f: "GnuHash_findSymbol g name = gnu_chain_walk g name ?h (unat b)"
    using a(1-6) by (auto simp: GnuHash_findSymbol_def Let_def)
  from gnu_chain_walk_finds[OF a(10) a(11) a(12) a(13) a(9) a(8)]
  obtain j where j: "unat b \<le> j" "j \<le> i"
      "gnu_chain_walk g name ?h (unat b) = Inr (j, gnu_syms g ! j)"
      "readString (gnu_strings g) (unat (st_name (gnu_syms g ! j))) = c_str name"
    by blast
  have "unat b \<noteq> 0" using a(7) by (simp add: unat_eq_0)
  then have "j \<noteq> 0" using j(1) by simp
  moreover have "j < length (gnu_syms g)" using j(2) a(10) by simp
  ultimately show ?thesis using f j(3,4) by auto
qed

lemma symbol_names_no_NUL:
  "n \<in> symbol_names ss strs \<Longrightarrow> CHR 0x00 \<notin> set n"
  by (auto simp: symbol_names_def readString_def dest: set_takeWhileD)

lemma gnu_chain_walk_absent:
  assumes absent: "\<forall>i < length (gnu_syms g).
             readString (gnu_strings g) (unat (st_name (gnu_syms g ! i))) \<noteq> c_str name"
    and e: "e < length (gnu_syms g)"
    and ce: "readObj (gnu_chains g) (e - unat (symoffset g)) = Some c" "c AND 1 \<noteq> 0"
  shows "idx \<le> e \<Longrightarrow>
     \<forall>k. idx \<le> k \<and> k \<le> e \<longrightarrow> (\<exists>c. readObj (gnu_chains g) (k - unat (symoffset g)) = Some c) \<Longrightarrow>
     gnu_chain_walk g name symhash idx = Inr (0, undef)"
proof (induction "e - idx" arbitrary: idx)
  case 0
  then have i: "idx = e" by simp
  show ?case
    unfolding i using absent e ce by (subst gnu_chain_walk.simps) (simp add: readObj_def)
next
  case (Suc n)
  then have lt: "idx < e" by simp
  then have il: "idx < length (gnu_syms g)" using e by simp
  obtain d where d: "readObj (gnu_chains g) (idx - unat (symoffset g)) = Some d"
    using Suc.prems(2) lt by (meson le_refl less_imp_le)
  have nm: "readString (gnu_strings g) (unat (st_name (gnu_syms g ! idx))) \<noteq> c_str name"
    using absent il by simp
  show ?case
  proof (cases "d AND 1 \<noteq> 0")
    case True
    then show ?thesis using il d nm by (subst gnu_chain_walk.simps) (simp add: readObj_def)
  next
    case False
    have st: "gnu_chain_walk g name symhash idx = gnu_chain_walk g name symhash (idx + 1)"
      using il d nm False by (subst gnu_chain_walk.simps) (simp add: readObj_def)
    have "n = e - (idx + 1)" using Suc.hyps(2) by simp
    moreover have "idx + 1 \<le> e" using lt by simp
    moreover have "\<forall>k. idx + 1 \<le> k \<and> k \<le> e \<longrightarrow>
        (\<exists>c. readObj (gnu_chains g) (k - unat (symoffset g)) = Some c)"
      using Suc.prems(2) by auto
    ultimately show ?thesis using Suc.hyps(1)[of "idx + 1"] st by simp
  qed
qed

lemma GnuHash_findSymbol_absent:
  assumes "gnu_terminated g name"
    and "c_str name \<notin> symbol_names (gnu_syms g) (gnu_strings g)"
  shows "GnuHash_findSymbol g name = Inr (0, undef)"
proof -
  let ?h = "gnu_hash name"
  have absent: "\<forall>i < length (gnu_syms g).
             readString (gnu_strings g) (unat (st_name (gnu_syms g ! i))) \<noteq> c_str name"
    using assms(2) unfolding symbol_names_def by (metis image_eqI nth_mem)
  from assms(1) obtain bloomword where
    a: "bloom_size g \<noteq> 0"
       "readObj (bloom g) ((unat ?h div ELF_BITS) mod unat (bloom_size g)) = Some bloomword"
       "bloomword AND bloom_mask g ?h = bloom_mask g ?h \<longrightarrow>
                nbuckets g \<noteq> 0
                \<and> (\<exists>b. readObj (gnu_buckets g) (unat ?h mod unat (nbuckets g)) = Some b
                      \<and> (symoffset g \<le> b \<longrightarrow> gnu_chain_ends g (unat b)))"
    unfolding gnu_terminated_def by blast
  show ?thesis
  proof (cases "bloomword AND bloom_mask g ?h = bloom_mask g ?h")
    case False
    then show ?thesis using a(1,2) by (simp add: GnuHash_findSymbol_def Let_def)
  next
    case True
    then obtain b where
      b: "nbuckets g \<noteq> 0" "readObj (gnu_buckets g) (unat ?h mod unat (nbuckets g)) = Some b"
         "symoffset g \<le> b \<longrightarrow> gnu_chain_ends g (unat b)"
      using a(3) by blast
    show ?thesis
    proof (cases "b < symoffset g")
      case lt: True
      then show ?thesis using a(1,2) True b(1,2) by (simp add: GnuHash_findSymbol_def Let_def)
    next
      case ge: False
      then have "gnu_chain_ends g (unat b)" using b(3) by simp
      then obtain e c where
        e: "unat b \<le> e" "e < length (gnu_syms g)"
           "\<forall>k. unat b \<le> k \<and> k \<le> e \<longrightarrow>
              (\<exists>c. readObj (gnu_chains g) (k - unat (symoffset g)) = Some c)"
           "readObj (gnu_chains g) (e - unat (symoffset g)) = Some c" "c AND 1 \<noteq> 0"
        unfolding gnu_chain_ends_def by blast
      have "gnu_chain_walk g name ?h (unat b) = Inr (0, undef)"
        using gnu_chain_walk_absent[OF absent e(2) e(4) e(5) e(1) e(3)] .
      then show ?thesis using a(1,2) True b(1,2) ge by (simp add: GnuHash_findSymbol_def Let_def)
    qed
  qed
qed

lemma sysv_chain_walk_absent:
  assumes absent: "\<forall>i < length (sysv_syms h).
             readString (sysv_strings h) (unat (st_name (sysv_syms h ! i))) \<noteq> name"
  shows "chain_nth h b k = Some STN_UNDEF \<Longrightarrow>
     \<forall>m. m < k \<longrightarrow> (\<exists>u. chain_nth h b m = Some u \<and> u \<noteq> STN_UNDEF
                           \<and> unat u < length (sysv_syms h)) \<Longrightarrow>
     sysv_chain_walk h name b = Some (Inr (0, undef))"
proof (induction k arbitrary: b)
  case 0
  then have "b = STN_UNDEF" by simp
  then show ?case by (subst sysv_chain_walk.simps) simp
next
  case (Suc k)
  from Suc.prems(2)[rule_format, of 0] have v: "b \<noteq> STN_UNDEF" "unat b < length (sysv_syms h)"
    by auto
  have nm: "readString (sysv_strings h) (unat (st_name (sysv_syms h ! unat b))) \<noteq> name"
    using absent v(2) by simp
  from Suc.prems(1) obtain nxt where n: "chains_at h (unat b) = Some nxt"
    "chain_nth h nxt k = Some STN_UNDEF"
    by (auto split: option.splits)
  have st: "sysv_chain_walk h name b = sysv_chain_walk h name nxt"
    using v nm n by (subst sysv_chain_walk.simps) (simp add: readObj_def)
  have "\<forall>m. m < k \<longrightarrow> (\<exists>u. chain_nth h nxt m = Some u \<and> u \<noteq> STN_UNDEF
                           \<and> unat u < length (sysv_syms h))"
  proof (intro allI impI)
    fix m assume "m < k"
    then have "Suc m < Suc k" by simp
    from Suc.prems(2)[rule_format, OF this] show
      "\<exists>u. chain_nth h nxt m = Some u \<and> u \<noteq> STN_UNDEF \<and> unat u < length (sysv_syms h)"
      using n(1) by simp
  qed
  from Suc.IH[OF n(2) this] show ?case using st by simp
qed

lemma SymHash_findSymbol_absent:
  assumes "sysv_terminated h name"
    and "name \<notin> symbol_names (sysv_syms h) (sysv_strings h)"
  shows "SymHash_findSymbol h name = Some (Inr (0, undef))"
proof -
  have absent: "\<forall>i < length (sysv_syms h).
             readString (sysv_strings h) (unat (st_name (sysv_syms h ! i))) \<noteq> name"
    using assms(2) unfolding symbol_names_def by (metis image_eqI nth_mem)
  from assms(1) obtain nb b k where
    a: "nbucket h = Some nb" "nb \<noteq> 0"
       "buckets_at h (unat (elf_hash name) mod unat nb) = Some b"
       "chain_nth h b k = Some STN_UNDEF"
       "\<forall>m. m < k \<longrightarrow> (\<exists>u. chain_nth h b m = Some u \<and> u \<noteq> STN_UNDEF
                           \<and> unat u < length (sysv_syms h))"
    unfolding sysv_terminated_def by blast
  have "SymHash_findSymbol h name = sysv_chain_walk h name b"
    using a(1-3) by (simp add: SymHash_findSymbol_def)
  then show ?thesis using sysv_chain_walk_absent[OF absent a(4,5)] by simp
qed

lemma c_str_id: "CHR 0x00 \<notin> set name \<Longrightarrow> c_str name = name"
  by (auto simp: c_str_def)

lemma set_hash_table_sel [simp]:
  "gnu_hash_table (set_hash_table h' obj) = gnu_hash_table obj"
  "hash_table (set_hash_table h' obj) = h'"
  by (cases obj; simp)+

lemma undef_shndx: "st_shndx undef = SHN_UNDEF"
  by (simp add: undef_def)

text \<open>
  C4 (amended). \<^verbatim>\<open>findDynamicSymbol(name)\<close> looks the name up in the GNU hash table
  when the image has one, else in the SysV hash table. The GNU lookup takes the name as a
  C string (up to its first NUL, so the name itself when it has none, as every name of a
  symbol table), the SysV lookup takes the name as it is. A nonzero returned index is the
  index of an entry of the table's symbols whose name is the name looked up, and with
  index 0 the symbol is \<^verbatim>\<open>undef()\<close>, whose \<^verbatim>\<open>st_shndx\<close> is \<^verbatim>\<open>SHN_UNDEF\<close>. A
  name is found, with a nonzero index, when the table that is consulted chains it: in
  the GNU table from \<^verbatim>\<open>symoffset\<close> on, behind its Bloom bits and its bucket; in the
  SysV table on the chain of its bucket. The result is \<^verbatim>\<open>(undef, 0)\<close> when the image
  has neither table, and when the name is absent from the symbols of the table that is
  consulted and the lookup comes to an end in that table: in the GNU table the Bloom
  word and the bucket are readable and the chain of the bucket ends with an end bit
  inside the symbol table; in the SysV table the chain of the bucket reaches
  \<^verbatim>\<open>STN_UNDEF\<close>.
\<close>

theorem findDynamicSymbol_hashed:
  "(\<forall>s j. findDynamicSymbol obj name = Some (Inr (s, j)) \<longrightarrow>
      (j = 0 \<longrightarrow> s = undef)
      \<and> (j \<noteq> 0 \<longrightarrow>
          (case gnu_hash_table obj of
             Some g \<Rightarrow> j < length (gnu_syms g) \<and> s = gnu_syms g ! j \<and>
                       readString (gnu_strings g) (unat (st_name s)) = c_str name
           | None \<Rightarrow>
               (case hash_table obj of
                  Some h \<Rightarrow> j < length (sysv_syms h) \<and> s = sysv_syms h ! j \<and>
                            readString (sysv_strings h) (unat (st_name s)) = name
                | None \<Rightarrow> False))))
   \<and> (\<forall>g i. gnu_hash_table obj = Some g \<and> gnu_indexed g name i \<longrightarrow>
         (\<exists>j. j \<noteq> 0 \<and> j < length (gnu_syms g) \<and>
              findDynamicSymbol obj name = Some (Inr (gnu_syms g ! j, j)) \<and>
              readString (gnu_strings g) (unat (st_name (gnu_syms g ! j))) = c_str name))
   \<and> (\<forall>h k. gnu_hash_table obj = None \<and> hash_table obj = Some h \<and> sysv_indexed h name k \<longrightarrow>
         (\<exists>j. j \<noteq> 0 \<and> j < length (sysv_syms h) \<and>
              findDynamicSymbol obj name = Some (Inr (sysv_syms h ! j, j)) \<and>
              readString (sysv_strings h) (unat (st_name (sysv_syms h ! j))) = name))
   \<and> (\<forall>g. gnu_hash_table obj = Some g \<and> gnu_terminated g name
            \<and> c_str name \<notin> symbol_names (gnu_syms g) (gnu_strings g) \<longrightarrow>
         findDynamicSymbol obj name = Some (Inr (undef, 0)))
   \<and> (\<forall>h. gnu_hash_table obj = None \<and> hash_table obj = Some h \<and> sysv_terminated h name
            \<and> name \<notin> symbol_names (sysv_syms h) (sysv_strings h) \<longrightarrow>
         findDynamicSymbol obj name = Some (Inr (undef, 0)))
   \<and> (gnu_hash_table obj = None \<and> hash_table obj = None \<longrightarrow>
         findDynamicSymbol obj name = Some (Inr (undef, 0)))
   \<and> st_shndx undef = SHN_UNDEF
   \<and> (CHR 0x00 \<notin> set name \<longrightarrow> c_str name = name)
   \<and> (\<forall>ss strs. name \<in> symbol_names ss strs \<longrightarrow> c_str name = name)"
proof -
  have snd: "\<forall>s j. findDynamicSymbol obj name = Some (Inr (s, j)) \<longrightarrow>
      (j = 0 \<longrightarrow> s = undef)
      \<and> (j \<noteq> 0 \<longrightarrow>
          (case gnu_hash_table obj of
             Some g \<Rightarrow> j < length (gnu_syms g) \<and> s = gnu_syms g ! j \<and>
                       readString (gnu_strings g) (unat (st_name s)) = c_str name
           | None \<Rightarrow>
               (case hash_table obj of
                  Some h \<Rightarrow> j < length (sysv_syms h) \<and> s = sysv_syms h ! j \<and>
                            readString (sysv_strings h) (unat (st_name s)) = name
                | None \<Rightarrow> False)))"
    using findDynamicSymbol_sound[of obj name] by simp
  have fg: "\<forall>g i. gnu_hash_table obj = Some g \<and> gnu_indexed g name i \<longrightarrow>
         (\<exists>j. j \<noteq> 0 \<and> j < length (gnu_syms g) \<and>
              findDynamicSymbol obj name = Some (Inr (gnu_syms g ! j, j)) \<and>
              readString (gnu_strings g) (unat (st_name (gnu_syms g ! j))) = c_str name)"
  proof (intro allI impI)
    fix g i assume a: "gnu_hash_table obj = Some g \<and> gnu_indexed g name i"
    then obtain j where j: "j \<noteq> 0" "j < length (gnu_syms g)"
        "GnuHash_findSymbol g name = Inr (j, gnu_syms g ! j)"
        "readString (gnu_strings g) (unat (st_name (gnu_syms g ! j))) = c_str name"
      using GnuHash_findSymbol_finds[of g name i] by blast
    have "findDynamicSymbol obj name = Some (Inr (gnu_syms g ! j, j))"
      using a j(1,3) by (simp add: findDynamicSymbol_def)
    then show "\<exists>j. j \<noteq> 0 \<and> j < length (gnu_syms g) \<and>
              findDynamicSymbol obj name = Some (Inr (gnu_syms g ! j, j)) \<and>
              readString (gnu_strings g) (unat (st_name (gnu_syms g ! j))) = c_str name"
      using j by blast
  qed
  have fs: "\<forall>h k. gnu_hash_table obj = None \<and> hash_table obj = Some h \<and> sysv_indexed h name k \<longrightarrow>
         (\<exists>j. j \<noteq> 0 \<and> j < length (sysv_syms h) \<and>
              findDynamicSymbol obj name = Some (Inr (sysv_syms h ! j, j)) \<and>
              readString (sysv_strings h) (unat (st_name (sysv_syms h ! j))) = name)"
  proof (intro allI impI)
    fix h k
    assume a: "gnu_hash_table obj = None \<and> hash_table obj = Some h \<and> sysv_indexed h name k"
    then obtain j where j: "j \<noteq> 0" "j < length (sysv_syms h)"
        "SymHash_findSymbol h name = Some (Inr (j, sysv_syms h ! j))"
        "readString (sysv_strings h) (unat (st_name (sysv_syms h ! j))) = name"
      using SymHash_findSymbol_finds[of h name k] by blast
    have "findDynamicSymbol obj name = Some (Inr (sysv_syms h ! j, j))"
      using a j(1,3) by (simp add: findDynamicSymbol_def)
    then show "\<exists>j. j \<noteq> 0 \<and> j < length (sysv_syms h) \<and>
              findDynamicSymbol obj name = Some (Inr (sysv_syms h ! j, j)) \<and>
              readString (sysv_strings h) (unat (st_name (sysv_syms h ! j))) = name"
      using j by blast
  qed
  have ag: "\<forall>g. gnu_hash_table obj = Some g \<and> gnu_terminated g name
            \<and> c_str name \<notin> symbol_names (gnu_syms g) (gnu_strings g) \<longrightarrow>
         findDynamicSymbol obj name = Some (Inr (undef, 0))"
    using GnuHash_findSymbol_absent by (auto simp: findDynamicSymbol_def)
  have as: "\<forall>h. gnu_hash_table obj = None \<and> hash_table obj = Some h \<and> sysv_terminated h name
            \<and> name \<notin> symbol_names (sysv_syms h) (sysv_strings h) \<longrightarrow>
         findDynamicSymbol obj name = Some (Inr (undef, 0))"
    using SymHash_findSymbol_absent by (auto simp: findDynamicSymbol_def)
  have nn: "gnu_hash_table obj = None \<and> hash_table obj = None \<longrightarrow>
         findDynamicSymbol obj name = Some (Inr (undef, 0))"
    by (simp add: findDynamicSymbol_no_accelerator)
  have cs: "CHR 0x00 \<notin> set name \<longrightarrow> c_str name = name" by (simp add: c_str_id)
  have cn: "\<forall>ss strs. name \<in> symbol_names ss strs \<longrightarrow> c_str name = name"
    using symbol_names_no_NUL c_str_id by blast
  show ?thesis using snd fg fs ag as nn undef_shndx cs cn by blast
qed

text \<open>
  C9. With a GNU hash table the result of \<^verbatim>\<open>findDynamicSymbol\<close> is the result of the
  GNU lookup alone, whatever the SysV table of the image is: when the Bloom filter
  rejects the hash, when the bucket holds an index below \<^verbatim>\<open>symoffset\<close>, or when the
  chain ends without a match, the result is \<^verbatim>\<open>(undef, 0)\<close>.
\<close>

theorem findDynamicSymbol_gnu_only:
  assumes "gnu_hash_table obj = Some g"
  shows "findDynamicSymbol obj name =
           (case GnuHash_findSymbol g name of
              Inl e \<Rightarrow> Some (Inl e)
            | Inr (idx, s) \<Rightarrow> if idx = 0 then Some (Inr (undef, 0)) else Some (Inr (s, idx)))
    \<and> (\<forall>h'. findDynamicSymbol (set_hash_table h' obj) name = findDynamicSymbol obj name)
    \<and> (\<forall>bloomword. bloom_size g \<noteq> 0
          \<and> readObj (bloom g) ((unat (gnu_hash name) div ELF_BITS) mod unat (bloom_size g))
              = Some bloomword
          \<and> bloomword AND bloom_mask g (gnu_hash name) \<noteq> bloom_mask g (gnu_hash name)
        \<longrightarrow> findDynamicSymbol obj name = Some (Inr (undef, 0)))
    \<and> (\<forall>bloomword b. bloom_size g \<noteq> 0
          \<and> readObj (bloom g) ((unat (gnu_hash name) div ELF_BITS) mod unat (bloom_size g))
              = Some bloomword
          \<and> bloomword AND bloom_mask g (gnu_hash name) = bloom_mask g (gnu_hash name)
          \<and> nbuckets g \<noteq> 0
          \<and> readObj (gnu_buckets g) (unat (gnu_hash name) mod unat (nbuckets g)) = Some b
          \<and> (b < symoffset g
               \<or> gnu_chain_walk g name (gnu_hash name) (unat b) = Inr (0, undef))
        \<longrightarrow> findDynamicSymbol obj name = Some (Inr (undef, 0)))"
proof (intro conjI allI impI)
  show "findDynamicSymbol obj name =
           (case GnuHash_findSymbol g name of
              Inl e \<Rightarrow> Some (Inl e)
            | Inr (idx, s) \<Rightarrow> if idx = 0 then Some (Inr (undef, 0)) else Some (Inr (s, idx)))"
    using assms by (simp add: findDynamicSymbol_def split: sum.splits prod.splits)
next
  fix h' show "findDynamicSymbol (set_hash_table h' obj) name = findDynamicSymbol obj name"
    using assms by (simp add: findDynamicSymbol_def)
next
  fix bloomword
  assume "bloom_size g \<noteq> 0
          \<and> readObj (bloom g) ((unat (gnu_hash name) div ELF_BITS) mod unat (bloom_size g))
              = Some bloomword
          \<and> bloomword AND bloom_mask g (gnu_hash name) \<noteq> bloom_mask g (gnu_hash name)"
  then have "GnuHash_findSymbol g name = Inr (0, undef)"
    by (simp add: GnuHash_findSymbol_def Let_def)
  then show "findDynamicSymbol obj name = Some (Inr (undef, 0))"
    using assms by (simp add: findDynamicSymbol_def)
next
  fix bloomword b
  assume "bloom_size g \<noteq> 0
          \<and> readObj (bloom g) ((unat (gnu_hash name) div ELF_BITS) mod unat (bloom_size g))
              = Some bloomword
          \<and> bloomword AND bloom_mask g (gnu_hash name) = bloom_mask g (gnu_hash name)
          \<and> nbuckets g \<noteq> 0
          \<and> readObj (gnu_buckets g) (unat (gnu_hash name) mod unat (nbuckets g)) = Some b
          \<and> (b < symoffset g
               \<or> gnu_chain_walk g name (gnu_hash name) (unat b) = Inr (0, undef))"
  then have "GnuHash_findSymbol g name = Inr (0, undef)"
    by (auto simp: GnuHash_findSymbol_def Let_def)
  then show "findDynamicSymbol obj name = Some (Inr (undef, 0))"
    using assms by (simp add: findDynamicSymbol_def)
qed

lemma gnu_hash_bar: "gnu_hash ''bar'' = 193487034"
  by (simp add: gnu_hash_def c_str_def)

lemma gnu_hash_foo: "gnu_hash ''foo'' = 193491849"
  by (simp add: gnu_hash_def c_str_def)

lemma elf_hash_foo: "elf_hash ''foo'' = 27999"
  by (simp add: elf_hash_def elf_hash_step_def)

lemma dynsym_names:
  "readString dynstr (unat (st_name (dynsym ! 1))) = ''foo''"
  "readString dynstr (unat (st_name (dynsym ! 2))) = ''bar''"
  "readString dynstr (unat (st_name (dynsym ! 0))) = ''''"
  by (simp_all add: readString_def dynstr_def dynsym_def foo_sym_def bar_sym_def undef_def)

lemma gnu_table_bar: "gnu_indexed gnu_table ''bar'' 2"
  unfolding gnu_indexed_def gnu_hash_bar
  by (simp add: gnu_table_def readObj_def ELF_BITS_def bloom_mask_def dynsym_names c_str_def)
     (simp add: dynsym_def)

lemma gnu_table_foo_rejected:
  "bloom_size gnu_table \<noteq> 0
   \<and> readObj (bloom gnu_table)
        ((unat (gnu_hash ''foo'') div ELF_BITS) mod unat (bloom_size gnu_table))
       = Some 0x400000000000004
   \<and> 0x400000000000004 AND bloom_mask gnu_table (gnu_hash ''foo'')
       \<noteq> bloom_mask gnu_table (gnu_hash ''foo'')"
  unfolding gnu_hash_foo
  by (simp add: gnu_table_def readObj_def ELF_BITS_def bloom_mask_def)

lemma sysv_chain:
  "chain_nth sysv_table 1 0 = Some 1"
  "chain_nth sysv_table 1 (Suc 0) = Some 2"
  by (simp_all add: chains_at_def nbucket_def readObj_def sysv_table_def)

lemma sysv_table_bar: "sysv_indexed sysv_table ''bar'' (Suc 0)"
proof -
  have b: "nbucket sysv_table = Some 1 \<and> (1::Word) \<noteq> 0 \<and>
           buckets_at sysv_table (unat (elf_hash ''bar'') mod unat (1::Word)) = Some 1"
    by (simp add: nbucket_def buckets_at_def sysv_table_def readObj_def)
  have v: "\<forall>m. m \<le> Suc 0 \<longrightarrow>
              (\<exists>u. chain_nth sysv_table 1 m = Some u \<and> u \<noteq> STN_UNDEF
                    \<and> unat u < length (sysv_syms sysv_table))"
  proof (intro allI impI)
    fix m :: nat assume "m \<le> Suc 0"
    then have "m = 0 \<or> m = Suc 0" by auto
    then show "\<exists>u. chain_nth sysv_table 1 m = Some u \<and> u \<noteq> STN_UNDEF
                    \<and> unat u < length (sysv_syms sysv_table)"
      using sysv_chain by (auto simp: STN_UNDEF_def sysv_table_def dynsym_def)
  qed
  have t: "chain_nth sysv_table 1 (Suc 0) = Some 2 \<and>
        readString (sysv_strings sysv_table)
          (unat (st_name (sysv_syms sysv_table ! unat (2::Word)))) = ''bar''"
    using sysv_chain(2) dynsym_names(2) by (simp add: sysv_table_def)
  show ?thesis unfolding sysv_indexed_def using b v t by blast
qed

lemma gnu_hash_baz: "gnu_hash ''baz'' = 193487042"
  by (simp add: gnu_hash_def c_str_def)

lemma dynsym_without_baz: "''baz'' \<notin> symbol_names dynsym dynstr"
  using dynsym_names by (simp add: symbol_names_def dynsym_def)

lemma dense_table_lookup:
  "GnuHash_findSymbol (dense_table c) name
     = gnu_chain_walk (dense_table c) name (gnu_hash name) 2"
proof -
  have m: "(0xffffffffffffffff :: Off) AND x = x" for x
  proof -
    have "(0xffffffffffffffff :: Off) = - 1" by simp
    then show ?thesis by (simp only: and.left_neutral)
  qed
  show ?thesis
    by (simp add: GnuHash_findSymbol_def Let_def dense_table_def readObj_def m)
qed

lemma dense_table_terminated: "gnu_terminated (dense_table 193487035) name"
proof -
  have "gnu_chain_ends (dense_table 193487035) 2"
    unfolding gnu_chain_ends_def
    by (intro exI[of _ 2]) (auto simp: dense_table_def dynsym_def readObj_def)
  then show ?thesis
    unfolding gnu_terminated_def
    by (auto simp: dense_table_def readObj_def)
qed

lemma sysv_table_terminated: "sysv_terminated sysv_table name"
proof -
  have c: "chain_nth sysv_table 1 (Suc (Suc 0)) = Some STN_UNDEF"
    by (simp add: chains_at_def nbucket_def readObj_def sysv_table_def STN_UNDEF_def)
  have v: "\<forall>m. m < Suc (Suc 0) \<longrightarrow>
              (\<exists>u. chain_nth sysv_table 1 m = Some u \<and> u \<noteq> STN_UNDEF
                    \<and> unat u < length (sysv_syms sysv_table))"
  proof (intro allI impI)
    fix m :: nat assume "m < Suc (Suc 0)"
    then have "m = 0 \<or> m = Suc 0" by auto
    then show "\<exists>u. chain_nth sysv_table 1 m = Some u \<and> u \<noteq> STN_UNDEF
                    \<and> unat u < length (sysv_syms sysv_table)"
      using sysv_chain by (auto simp: STN_UNDEF_def sysv_table_def dynsym_def)
  qed
  have b: "nbucket sysv_table = Some 1 \<and> (1::Word) \<noteq> 0 \<and>
           buckets_at sysv_table (unat (elf_hash name) mod unat (1::Word)) = Some 1"
    by (simp add: nbucket_def buckets_at_def sysv_table_def readObj_def)
  show ?thesis unfolding sysv_terminated_def using b c v by blast
qed

text \<open>
  C4 (amended) on the example tables: \<^verbatim>\<open>bar\<close> through the GNU table, through the SysV
  table, and with neither; the absent name \<^verbatim>\<open>baz\<close> through a GNU table whose filter
  lets it pass and whose chain ends, and through the SysV table.
\<close>

theorem findDynamicSymbol_hashed_witness:
  "findDynamicSymbol (image_of_tables (Some gnu_table) None) ''bar'' = Some (Inr (bar_sym, 2))
   \<and> findDynamicSymbol (image_of_tables None (Some sysv_table)) ''bar'' = Some (Inr (bar_sym, 2))
   \<and> findDynamicSymbol (image_of_tables None None) ''bar'' = Some (Inr (undef, 0))
   \<and> findDynamicSymbol (image_of_tables (Some (dense_table 193487035)) None) ''baz''
       = Some (Inr (undef, 0))
   \<and> findDynamicSymbol (image_of_tables None (Some sysv_table)) ''baz'' = Some (Inr (undef, 0))"
proof -
  have two: "j \<noteq> 0 \<Longrightarrow> j < length dynsym \<Longrightarrow>
             readString dynstr (unat (st_name (dynsym ! j))) = ''bar'' \<Longrightarrow> j = 2" for j
  proof -
    assume a: "j \<noteq> 0" "j < length dynsym" "readString dynstr (unat (st_name (dynsym ! j))) = ''bar''"
    then have "j = 1 \<or> j = 2" by (auto simp: dynsym_def)
    then show "j = 2" using a(3) dynsym_names(1) by auto
  qed
  have d2: "dynsym ! 2 = bar_sym" by (simp add: dynsym_def)
  have cb: "c_str ''bar'' = ''bar''" "c_str ''baz'' = ''baz''" by (simp_all add: c_str_def)
  have g: "gnu_hash_table (image_of_tables (Some gnu_table) None) = Some gnu_table"
    by (simp add: image_of_tables_def)
  have gs: "gnu_syms gnu_table = dynsym" "gnu_strings gnu_table = dynstr"
    by (simp_all add: gnu_table_def)
  have a: "findDynamicSymbol (image_of_tables (Some gnu_table) None) ''bar''
             = Some (Inr (bar_sym, 2))"
    using findDynamicSymbol_hashed[of "image_of_tables (Some gnu_table) None" "''bar''"]
      g gnu_table_bar two d2 cb(1) gs by (metis (no_types, lifting))
  have h: "gnu_hash_table (image_of_tables None (Some sysv_table)) = None"
          "hash_table (image_of_tables None (Some sysv_table)) = Some sysv_table"
    by (simp_all add: image_of_tables_def)
  have hs: "sysv_syms sysv_table = dynsym" "sysv_strings sysv_table = dynstr"
    by (simp_all add: sysv_table_def)
  have b: "findDynamicSymbol (image_of_tables None (Some sysv_table)) ''bar''
             = Some (Inr (bar_sym, 2))"
    using findDynamicSymbol_hashed[of "image_of_tables None (Some sysv_table)" "''bar''"]
      h sysv_table_bar two d2 hs by (metis (no_types, lifting))
  have n: "gnu_hash_table (image_of_tables None None) = None"
          "hash_table (image_of_tables None None) = None"
    by (simp_all add: image_of_tables_def)
  have c: "findDynamicSymbol (image_of_tables None None) ''bar'' = Some (Inr (undef, 0))"
    using findDynamicSymbol_hashed[of "image_of_tables None None" "''bar''"] n by blast
  have dg: "gnu_hash_table (image_of_tables (Some (dense_table 193487035)) None)
              = Some (dense_table 193487035)"
    by (simp add: image_of_tables_def)
  have ds: "c_str ''baz'' \<notin> symbol_names (gnu_syms (dense_table 193487035))
                                          (gnu_strings (dense_table 193487035))"
    using dynsym_without_baz by (simp add: cb(2) dense_table_def)
  have d: "findDynamicSymbol (image_of_tables (Some (dense_table 193487035)) None) ''baz''
             = Some (Inr (undef, 0))"
    using findDynamicSymbol_hashed[of "image_of_tables (Some (dense_table 193487035)) None"
        "''baz''"] dg ds dense_table_terminated[of "''baz''"] by blast
  have es: "''baz'' \<notin> symbol_names (sysv_syms sysv_table) (sysv_strings sysv_table)"
    using dynsym_without_baz by (simp add: hs)
  have e: "findDynamicSymbol (image_of_tables None (Some sysv_table)) ''baz''
             = Some (Inr (undef, 0))"
    using findDynamicSymbol_hashed[of "image_of_tables None (Some sysv_table)" "''baz''"]
      h es sysv_table_terminated[of "''baz''"] by blast
  show ?thesis using a b c d e by simp
qed

text \<open>
  C4 as stated fails for a name of \<^verbatim>\<open>.dynsym\<close> that the GNU table does not index: the
  import \<^verbatim>\<open>foo\<close> sits below \<^verbatim>\<open>symoffset\<close>, and its lookup returns
  \<^verbatim>\<open>(undef, 0)\<close>. It also fails for an absent name on a chain that does not end: in
  the table whose chain entry has no end bit, the lookup of \<^verbatim>\<open>baz\<close> reads past the
  symbol table and raises the Reader's error.
\<close>

theorem findDynamicSymbol_unhashed_counterexample:
  "''foo'' \<in> symbol_names (syms (dynamicSymbols (image_of_tables (Some gnu_table) None)))
                            (strings (dynamicSymbols (image_of_tables (Some gnu_table) None)))
   \<and> gnu_hash_table (image_of_tables (Some gnu_table) None) = Some gnu_table
   \<and> findDynamicSymbol (image_of_tables (Some gnu_table) None) ''foo'' = Some (Inr (undef, 0))
   \<and> ''baz'' \<notin> symbol_names
                    (syms (dynamicSymbols (image_of_tables (Some (dense_table 193487034)) None)))
                    (strings (dynamicSymbols (image_of_tables (Some (dense_table 193487034)) None)))
   \<and> findDynamicSymbol (image_of_tables (Some (dense_table 193487034)) None) ''baz''
       = Some (Inl IoError)"
proof -
  have "GnuHash_findSymbol gnu_table ''foo'' = Inr (0, undef)"
    using gnu_table_foo_rejected by (simp add: GnuHash_findSymbol_def Let_def)
  then have a: "findDynamicSymbol (image_of_tables (Some gnu_table) None) ''foo''
               = Some (Inr (undef, 0))"
    by (simp add: findDynamicSymbol_def image_of_tables_def)
  have b: "''foo'' \<in> symbol_names dynsym dynstr"
    unfolding symbol_names_def using dynsym_names(1) by (force simp: dynsym_def)
  have w3: "gnu_chain_walk (dense_table 193487034) ''baz'' 193487042 3 = Inl IoError"
    by (subst gnu_chain_walk.simps) (simp add: readObj_def dense_table_def dynsym_def)
  have "gnu_chain_walk (dense_table 193487034) ''baz'' 193487042 2 = Inl IoError"
    using w3
    by (subst gnu_chain_walk.simps) (simp add: readObj_def dense_table_def dynsym_def)
  then have "GnuHash_findSymbol (dense_table 193487034) ''baz'' = Inl IoError"
    by (simp add: dense_table_lookup gnu_hash_baz)
  then have c: "findDynamicSymbol (image_of_tables (Some (dense_table 193487034)) None) ''baz''
       = Some (Inl IoError)"
    by (simp add: findDynamicSymbol_def image_of_tables_def)
  show ?thesis using a b c dynsym_without_baz by (simp add: image_of_tables_def)
qed

text \<open>
  C9 on an image with both tables: the GNU lookup of \<^verbatim>\<open>foo\<close> misses and the result
  is \<^verbatim>\<open>(undef, 0)\<close>, although the SysV table alone finds \<^verbatim>\<open>foo\<close> at index 1.
\<close>

theorem findDynamicSymbol_gnu_only_witness:
  "findDynamicSymbol (image_of_tables (Some gnu_table) (Some sysv_table)) ''foo''
     = Some (Inr (undef, 0))
   \<and> SymHash_findSymbol sysv_table ''foo'' = Some (Inr (1, foo_sym))"
proof -
  have g: "gnu_hash_table (image_of_tables (Some gnu_table) (Some sysv_table)) = Some gnu_table"
    by (simp add: image_of_tables_def)
  have a: "findDynamicSymbol (image_of_tables (Some gnu_table) (Some sysv_table)) ''foo''
     = Some (Inr (undef, 0))"
    using findDynamicSymbol_gnu_only[OF g, of "''foo''"] gnu_table_foo_rejected by blast
  have "sysv_chain_walk sysv_table ''foo'' 1 = Some (Inr (1, foo_sym))"
    using dynsym_names(1)
    by (subst sysv_chain_walk.simps)
       (simp add: STN_UNDEF_def readObj_def sysv_table_def dynsym_def)
  then have b: "SymHash_findSymbol sysv_table ''foo'' = Some (Inr (1, foo_sym))"
    by (simp add: SymHash_findSymbol_def nbucket_def buckets_at_def readObj_def sysv_table_def)
  show ?thesis using a b by simp
qed

section \<open>Address to symbol: covering match before zero-size match\<close>

lemma find_snoc:
  "find P (xs @ [x]) = (case find P xs of Some y \<Rightarrow> Some y | None \<Rightarrow> if P x then Some x else None)"
  by (induction xs) auto

lemma findSym_scan:
  "findSym obj addr type table cands (symb, nm, have) =
     (case find (covering obj addr type) cands of
        Some c \<Rightarrow> (True, (c, table_name table c,
                     have \<or> (\<exists>z \<in> set (takeWhile (\<lambda>c. \<not> covering obj addr type c) cands).
                                zero_size_exact obj addr type z)))
      | None \<Rightarrow>
          (case find (zero_size_exact obj addr type) (rev cands) of
             Some z \<Rightarrow> (False, (z\<lparr>st_shndx := SHN_UNDEF\<rparr>, table_name table z, True))
           | None \<Rightarrow> (False, (symb\<lparr>st_shndx := SHN_UNDEF\<rparr>, nm, have))))"
proof (induction cands arbitrary: symb nm "have")
  case Nil
  then show ?case by simp
next
  case (Cons c rest)
  show ?case
  proof (cases "covering obj addr type c")
    case True
    then show ?thesis
      by (auto simp: covering_def accepted_def not_le not_less)
  next
    case nc: False
    show ?thesis
    proof (cases "zero_size_exact obj addr type c")
      case True
      then have st: "findSym obj addr type table (c # rest) (symb, nm, have)
                 = findSym obj addr type table rest (c, table_name table c, True)"
        by (auto simp: zero_size_exact_def accepted_def)
      show ?thesis unfolding st Cons.IH using nc True
        by (auto simp: find_snoc split: option.splits)
    next
      case nz: False
      have st: "findSym obj addr type table (c # rest) (symb, nm, have)
                 = findSym obj addr type table rest (symb, nm, have)"
        using nc nz
        by (auto simp: zero_size_exact_def covering_def accepted_def not_le not_less)
      show ?thesis unfolding st Cons.IH using nc nz
        by (auto simp: find_snoc split: option.splits)
    qed
  qed
qed

lemma findSymbolByAddress_scans:
  "findSymbolByAddress obj addr type =
     (case find (covering obj addr type) (syms (debugSymbols obj)) of
        Some c \<Rightarrow> Some (c, table_name (debugSymbols obj) c)
      | None \<Rightarrow>
          (case find (covering obj addr type) (syms (dynamicSymbols obj)) of
             Some c \<Rightarrow> Some (c, table_name (dynamicSymbols obj) c)
           | None \<Rightarrow>
               (case (case debugData obj of
                        None \<Rightarrow> None
                      | Some nested \<Rightarrow> findSymbolByAddress nested addr type) of
                  Some debugSym \<Rightarrow> Some debugSym
                | None \<Rightarrow> fallback obj addr type)))"
proof (cases obj)
  case (Object n i ph sh ns dn dl dobj dd l ds dy g h)
  show ?thesis
    unfolding Object
    by (subst findSymbolByAddress.simps)
       (auto simp: findSym_scan fallback_def Let_def split: option.splits)
qed

lemma find_SomeD: "find P xs = Some x \<Longrightarrow> x \<in> set xs \<and> P x"
  by (auto simp: find_Some_iff)

text \<open>
  C2. \<^verbatim>\<open>findSymbolByAddress(addr, type)\<close> returns the first covering candidate of
  \<^verbatim>\<open>.symtab\<close>, else the first one of \<^verbatim>\<open>.dynsym\<close> (section index in bounds, type
  accepted, \<open>st_value \<le> addr < st_value + st_size\<close>, section allocated); without a
  covering candidate in the two tables it returns what the embedded
  \<^verbatim>\<open>.gnu_debugdata\<close> image finds; only then the recorded zero-size exact match, which
  needs no allocated section and comes back with \<^verbatim>\<open>st_shndx\<close> reset to
  \<^verbatim>\<open>SHN_UNDEF\<close>; and it is absent when there is neither.
\<close>

theorem findSymbolByAddress_prefers_covering:
  "findSymbolByAddress obj addr type =
     (case find (covering obj addr type) (syms (debugSymbols obj)) of
        Some c \<Rightarrow> Some (c, table_name (debugSymbols obj) c)
      | None \<Rightarrow>
          (case find (covering obj addr type) (syms (dynamicSymbols obj)) of
             Some c \<Rightarrow> Some (c, table_name (dynamicSymbols obj) c)
           | None \<Rightarrow>
               (case (case debugData obj of
                        None \<Rightarrow> None
                      | Some nested \<Rightarrow> findSymbolByAddress nested addr type) of
                  Some debugSym \<Rightarrow> Some debugSym
                | None \<Rightarrow> fallback obj addr type)))
   \<and> ((\<exists>c \<in> set (syms (debugSymbols obj)) \<union> set (syms (dynamicSymbols obj)).
          covering obj addr type c)
      \<longrightarrow> (\<exists>c \<in> set (syms (debugSymbols obj)) \<union> set (syms (dynamicSymbols obj)).
             covering obj addr type c \<and> (\<exists>nm. findSymbolByAddress obj addr type = Some (c, nm))))
   \<and> ((\<forall>c \<in> set (syms (debugSymbols obj)) \<union> set (syms (dynamicSymbols obj)).
          \<not> covering obj addr type c)
        \<and> (\<forall>nested. debugData obj = Some nested \<longrightarrow> findSymbolByAddress nested addr type = None)
      \<longrightarrow> findSymbolByAddress obj addr type = fallback obj addr type
          \<and> (\<forall>z nm. fallback obj addr type = Some (z, nm) \<longrightarrow>
                (\<exists>c \<in> set (syms (debugSymbols obj)) \<union> set (syms (dynamicSymbols obj)).
                   zero_size_exact obj addr type c \<and> z = c\<lparr>st_shndx := SHN_UNDEF\<rparr>))
          \<and> ((\<forall>c \<in> set (syms (debugSymbols obj)) \<union> set (syms (dynamicSymbols obj)).
                 \<not> zero_size_exact obj addr type c)
              \<longrightarrow> findSymbolByAddress obj addr type = None))"
proof (intro conjI impI)
  show "findSymbolByAddress obj addr type =
     (case find (covering obj addr type) (syms (debugSymbols obj)) of
        Some c \<Rightarrow> Some (c, table_name (debugSymbols obj) c)
      | None \<Rightarrow>
          (case find (covering obj addr type) (syms (dynamicSymbols obj)) of
             Some c \<Rightarrow> Some (c, table_name (dynamicSymbols obj) c)
           | None \<Rightarrow>
               (case (case debugData obj of
                        None \<Rightarrow> None
                      | Some nested \<Rightarrow> findSymbolByAddress nested addr type) of
                  Some debugSym \<Rightarrow> Some debugSym
                | None \<Rightarrow> fallback obj addr type)))"
    by (rule findSymbolByAddress_scans)
next
  assume "\<exists>c \<in> set (syms (debugSymbols obj)) \<union> set (syms (dynamicSymbols obj)).
          covering obj addr type c"
  then have "find (covering obj addr type) (syms (debugSymbols obj)) \<noteq> None
           \<or> find (covering obj addr type) (syms (dynamicSymbols obj)) \<noteq> None"
    by (auto simp: find_None_iff)
  then consider c where "find (covering obj addr type) (syms (debugSymbols obj)) = Some c"
    | c where "find (covering obj addr type) (syms (debugSymbols obj)) = None"
        "find (covering obj addr type) (syms (dynamicSymbols obj)) = Some c"
    by (cases "find (covering obj addr type) (syms (debugSymbols obj))") auto
  then show "\<exists>c \<in> set (syms (debugSymbols obj)) \<union> set (syms (dynamicSymbols obj)).
             covering obj addr type c \<and> (\<exists>nm. findSymbolByAddress obj addr type = Some (c, nm))"
  proof cases
    case 1
    have "findSymbolByAddress obj addr type = Some (c, table_name (debugSymbols obj) c)"
      using 1 by (subst findSymbolByAddress_scans) simp
    then show ?thesis using find_SomeD[OF 1] by blast
  next
    case 2
    have "findSymbolByAddress obj addr type = Some (c, table_name (dynamicSymbols obj) c)"
      using 2 by (subst findSymbolByAddress_scans) simp
    then show ?thesis using find_SomeD[OF 2(2)] by blast
  qed
next
  assume a: "(\<forall>c \<in> set (syms (debugSymbols obj)) \<union> set (syms (dynamicSymbols obj)).
          \<not> covering obj addr type c)
        \<and> (\<forall>nested. debugData obj = Some nested \<longrightarrow> findSymbolByAddress nested addr type = None)"
  then have n: "find (covering obj addr type) (syms (debugSymbols obj)) = None"
      "find (covering obj addr type) (syms (dynamicSymbols obj)) = None"
    by (auto simp: find_None_iff)
  show f: "findSymbolByAddress obj addr type = fallback obj addr type"
    using a n by (subst findSymbolByAddress_scans) (auto split: option.splits)
  show "\<forall>z nm. fallback obj addr type = Some (z, nm) \<longrightarrow>
                (\<exists>c \<in> set (syms (debugSymbols obj)) \<union> set (syms (dynamicSymbols obj)).
                   zero_size_exact obj addr type c \<and> z = c\<lparr>st_shndx := SHN_UNDEF\<rparr>)"
  proof (intro allI impI)
    fix z nm assume fb: "fallback obj addr type = Some (z, nm)"
    show "\<exists>c \<in> set (syms (debugSymbols obj)) \<union> set (syms (dynamicSymbols obj)).
                   zero_size_exact obj addr type c \<and> z = c\<lparr>st_shndx := SHN_UNDEF\<rparr>"
    proof (cases "find (zero_size_exact obj addr type) (rev (syms (dynamicSymbols obj)))")
      case (Some c)
      then have "c \<in> set (syms (dynamicSymbols obj)) \<and> zero_size_exact obj addr type c"
        using find_SomeD[OF Some] by simp
      moreover have "z = c\<lparr>st_shndx := SHN_UNDEF\<rparr>" using fb Some by (simp add: fallback_def)
      ultimately show ?thesis by blast
    next
      case None
      then obtain c where c: "find (zero_size_exact obj addr type) (rev (syms (debugSymbols obj))) = Some c"
        using fb by (auto simp: fallback_def split: option.splits)
      then have "c \<in> set (syms (debugSymbols obj)) \<and> zero_size_exact obj addr type c"
        using find_SomeD[OF c] by simp
      moreover have "z = c\<lparr>st_shndx := SHN_UNDEF\<rparr>" using fb None c by (simp add: fallback_def)
      ultimately show ?thesis by blast
    qed
  qed
  assume nz: "\<forall>c \<in> set (syms (debugSymbols obj)) \<union> set (syms (dynamicSymbols obj)).
                 \<not> zero_size_exact obj addr type c"
  have "find (zero_size_exact obj addr type) (rev (syms (dynamicSymbols obj))) = None"
    using nz by (simp add: find_None_iff)
  moreover have "find (zero_size_exact obj addr type) (rev (syms (debugSymbols obj))) = None"
    using nz by (simp add: find_None_iff)
  ultimately show "findSymbolByAddress obj addr type = None"
    unfolding f by (simp add: fallback_def)
qed

lemmas text_image_defs = text_image_def text_section_def nullSection_def marker_sym_def
  etext_sym_def main_sym_def undef_def symstr_def covering_def zero_size_exact_def accepted_def
  STT_NOTYPE_def SHF_ALLOC_def SHN_UNDEF_def table_name_def readString_def fallback_def

text \<open>
  C2 on the example image: at \<open>0x1010\<close> the function \<^verbatim>\<open>main\<close> wins over the zero-size
  \<^verbatim>\<open>marker\<close> that precedes it in the table; at \<open>0x1020\<close> only the zero-size
  \<^verbatim>\<open>etext\<close> matches; at \<open>0x5000\<close> nothing does.
\<close>

theorem findSymbolByAddress_prefers_covering_witness:
  "zero_size_exact text_image 0x1010 STT_NOTYPE marker_sym
   \<and> covering text_image 0x1010 STT_NOTYPE main_sym
   \<and> findSymbolByAddress text_image 0x1010 STT_NOTYPE = Some (main_sym, ''main'')
   \<and> findSymbolByAddress text_image 0x1020 STT_NOTYPE
       = Some (etext_sym\<lparr>st_shndx := SHN_UNDEF\<rparr>, ''etext'')
   \<and> findSymbolByAddress text_image 0x5000 STT_NOTYPE = None"
proof -
  have z: "zero_size_exact text_image 0x1010 STT_NOTYPE marker_sym"
    by (simp add: text_image_defs)
  have c: "covering text_image 0x1010 STT_NOTYPE main_sym"
    by (simp add: text_image_defs)
  have f1: "find (covering text_image 0x1010 STT_NOTYPE) (syms (debugSymbols text_image))
              = Some main_sym"
    by (simp add: text_image_defs)
  have n1: "table_name (debugSymbols text_image) main_sym = ''main''"
    by (simp add: text_image_defs)
  have a: "findSymbolByAddress text_image 0x1010 STT_NOTYPE = Some (main_sym, ''main'')"
    using findSymbolByAddress_prefers_covering[of text_image "0x1010" STT_NOTYPE] f1 n1 by simp
  have nc: "\<forall>c \<in> set (syms (debugSymbols text_image)) \<union> set (syms (dynamicSymbols text_image)).
              \<not> covering text_image 0x1020 STT_NOTYPE c"
    by (simp add: text_image_defs)
  have nn: "\<forall>nested. debugData text_image = Some nested \<longrightarrow>
              findSymbolByAddress nested 0x1020 STT_NOTYPE = None"
    by (simp add: text_image_def)
  have fb: "fallback text_image 0x1020 STT_NOTYPE
              = Some (etext_sym\<lparr>st_shndx := SHN_UNDEF\<rparr>, ''etext'')"
    by (simp add: text_image_defs)
  have b: "findSymbolByAddress text_image 0x1020 STT_NOTYPE
       = Some (etext_sym\<lparr>st_shndx := SHN_UNDEF\<rparr>, ''etext'')"
    using findSymbolByAddress_prefers_covering[of text_image "0x1020" STT_NOTYPE] nc nn fb
    by metis
  have nc5: "\<forall>c \<in> set (syms (debugSymbols text_image)) \<union> set (syms (dynamicSymbols text_image)).
              \<not> covering text_image 0x5000 STT_NOTYPE c"
    by (simp add: text_image_defs)
  have nn5: "\<forall>nested. debugData text_image = Some nested \<longrightarrow>
              findSymbolByAddress nested 0x5000 STT_NOTYPE = None"
    by (simp add: text_image_def)
  have nz5: "\<forall>c \<in> set (syms (debugSymbols text_image)) \<union> set (syms (dynamicSymbols text_image)).
              \<not> zero_size_exact text_image 0x5000 STT_NOTYPE c"
    by (simp add: text_image_defs)
  have d: "findSymbolByAddress text_image 0x5000 STT_NOTYPE = None"
    using findSymbolByAddress_prefers_covering[of text_image "0x5000" STT_NOTYPE] nc5 nn5 nz5
    by blast
  show ?thesis using z c a b d by simp
qed

section \<open>Symbol versions: decoding of the index\<close>

lemma low15_mask: "unat ((idx :: Half) AND 0x7fff) = unat idx mod 2 ^ 15"
proof -
  have m: "(0x7fff :: Half) = mask 15" by (simp add: mask_eq_exp_minus_1)
  have "unat (idx AND mask 15) = take_bit 15 (unat idx)"
    by (simp add: unsigned_take_bit_eq flip: take_bit_eq_mask)
  then show ?thesis unfolding m by (simp add: take_bit_eq_mod)
qed

text \<open>
  C8 (amended). \<^verbatim>\<open>symbolVersion(idx)\<close> first builds the version table from
  \<^verbatim>\<open>.gnu.version_r\<close> and \<^verbatim>\<open>.gnu.version_d\<close>. When the build raises, the call raises
  the same error for every index, the reserved ones included; that is the case, with
  \<^verbatim>\<open>std::out_of_range\<close>, of an image that has the section \<^verbatim>\<open>.gnu.version_r\<close> and no
  \<^verbatim>\<open>DT_VERNEEDNUM\<close> entry. When the table is built, the index is decoded without bit
  15, the hidden flag: the indices 0 and 1 give no name, every other index gives the name
  the table records for it, and \<^verbatim>\<open>versions.at\<close> throws for an index without a name.
\<close>

theorem symbolVersion_decoding:
  "(\<forall>vi. symbolVersions zlib obj = Inr vi \<longrightarrow>
       (unat (idx AND 0x7fff) < 2 \<longrightarrow> symbolVersion zlib obj idx = Inr None)
     \<and> (\<forall>n. 2 \<le> unat (idx AND 0x7fff) \<and> versions vi (unat (idx AND 0x7fff)) = Some n
           \<longrightarrow> symbolVersion zlib obj idx = Inr (Some n))
     \<and> (2 \<le> unat (idx AND 0x7fff) \<and> versions vi (unat (idx AND 0x7fff)) = None
           \<longrightarrow> symbolVersion zlib obj idx = Inl OutOfRange))
   \<and> (\<forall>e. symbolVersions zlib obj = Inl e \<longrightarrow> symbolVersion zlib obj idx = Inl e)
   \<and> (\<forall>strs. Section_bool (getSection obj ''.gnu.version_r'' SHT_GNU_verneed)
         \<and> getLinkedSection obj (getSection obj ''.gnu.version_r'' SHT_GNU_verneed) = Inr strs
         \<and> dynamic obj DT_VERNEEDNUM = None
        \<longrightarrow> symbolVersion zlib obj idx = Inl OutOfRange)
   \<and> unat (idx AND 0x7fff) = unat idx mod 2 ^ 15"
proof -
  have a: "symbolVersion zlib obj idx = Inl OutOfRange"
    if "Section_bool (getSection obj ''.gnu.version_r'' SHT_GNU_verneed)"
      "getLinkedSection obj (getSection obj ''.gnu.version_r'' SHT_GNU_verneed) = Inr strs"
      "dynamic obj DT_VERNEEDNUM = None" for strs
    using that by (simp add: symbolVersion_def symbolVersions_def version_section_def Let_def)
  show ?thesis
    using a low15_mask[of idx] by (auto simp: symbolVersion_def Let_def)
qed

lemma versioned_sections_lookup:
  "getSection versioned_image ''.gnu.version_r'' SHT_GNU_verneed = versioned_sections ! 2"
  "getSection versioned_image ''.gnu.version_d'' SHT_GNU_verdef = nullSection"
proof -
  show "getSection versioned_image ''.gnu.version_r'' SHT_GNU_verneed = versioned_sections ! 2"
    by (subst getSection.simps)
       (simp add: exact_match_def versioned_image_def versioned_sections_def
          load_namedSection_def nullSection_def)
  have e: "exact_match versioned_image n SHT_GNU_verdef = None" for n
    by (simp add: exact_match_def versioned_image_def versioned_sections_def
          load_namedSection_def nullSection_def SHT_GNU_verdef_def SHT_GNU_verneed_def
          SHT_NULL_def)
  have n: "\<not> starts_with_debug ''.gnu.version_d''" "\<not> ends_with_dwo ''.gnu.version_d''"
    "ends_with_dwo ''.gnu.version_d.dwo''" "\<not> starts_with_debug ''.gnu.version_d.dwo''"
    by (simp_all add: starts_with_debug_def ends_with_dwo_def dwosuffix_def)
  have "getSection versioned_image ''.gnu.version_d.dwo'' SHT_GNU_verdef
          = sectionHeaders versioned_image ! 0"
    using e n by (subst getSection.simps) simp
  then have "getSection versioned_image ''.gnu.version_d'' SHT_GNU_verdef
          = sectionHeaders versioned_image ! 0"
    using e n by (subst getSection.simps) simp
  then show "getSection versioned_image ''.gnu.version_d'' SHT_GNU_verdef = nullSection"
    by (simp add: versioned_image_def versioned_sections_def)
qed

lemma versioned_image_table:
  "symbolVersions zlib versioned_image =
     Inr \<lparr>versions = [2 \<mapsto> ''GLIBC_2.2.5''], predecessors = Map.empty,
          files = [''libc.so.6'' \<mapsto> [2]]\<rparr>"
proof -
  let ?vio = "view versioned_bytes 32 32" and ?strs = "view versioned_bytes 0 32"
  have rn: "readVerneed ?vio 0
              = Some \<lparr>vn_version = 1, vn_cnt = 1, vn_file = 1, vn_aux = 16, vn_next = 0\<rparr>"
    by (simp add: readVerneed_def readHalf_def readWord_def readInt_def le_word_def view_def
        versioned_bytes_def)
  have ra: "readVernaux ?vio 16
              = Some \<lparr>vna_hash = 0x09691a75, vna_flags = 0, vna_other = 2, vna_name = 11,
                      vna_next = 0\<rparr>"
    by (simp add: readVernaux_def readHalf_def readWord_def readInt_def le_word_def view_def
        versioned_bytes_def)
  have s1: "readString_of (Inr ?strs) (Suc 0) = Inr ''libc.so.6''"
    "readString_of (Inr ?strs) 11 = Inr ''GLIBC_2.2.5''"
    by (simp_all add: readString_of_def readString_def view_def versioned_bytes_def)
  have a1: "vernaux_loop ?vio (Inr ?strs) (Suc 0) (Suc 0) a f r = Inr r" for a f r
    by (subst vernaux_loop.simps) simp
  have a0: "vernaux_loop ?vio (Inr ?strs) 0 (Suc 0) 16 ''libc.so.6''
              \<lparr>versions = Map.empty, predecessors = Map.empty,
               files = [''libc.so.6'' \<mapsto> []]\<rparr>
            = Inr \<lparr>versions = [2 \<mapsto> ''GLIBC_2.2.5''], predecessors = Map.empty,
                   files = [''libc.so.6'' \<mapsto> [2]]\<rparr>"
    by (subst vernaux_loop.simps) (simp add: ra s1 a1)
  have n0: "verneed_loop ?vio (Inr ?strs) 0 off r = Inr r" for off r
    by (subst verneed_loop.simps) simp
  have n1: "verneed_loop ?vio (Inr ?strs) (Suc 0) 0
              \<lparr>versions = Map.empty, predecessors = Map.empty, files = Map.empty\<rparr>
            = Inr \<lparr>versions = [2 \<mapsto> ''GLIBC_2.2.5''], predecessors = Map.empty,
                   files = [''libc.so.6'' \<mapsto> [2]]\<rparr>"
    by (subst verneed_loop.simps) (simp add: rn s1 a0 n0 Let_def)
  have io2: "Section_io zlib versioned_image (versioned_sections ! 2) = Inr ?vio"
    by (simp add: Section_io_def versioned_sections_def versioned_image_def SHT_GNU_verneed_def
        SHT_NULL_def SHF_COMPRESSED_def)
  have l: "getLinkedSection versioned_image (versioned_sections ! 2)
             = Inr (versioned_sections ! Suc 0)"
    by (simp add: getLinkedSection_def Section_bool_def versioned_sections_def
        versioned_image_def SHT_GNU_verneed_def SHT_NULL_def)
  have io1: "Section_io zlib versioned_image (versioned_sections ! Suc 0) = Inr ?strs"
    by (simp add: Section_io_def versioned_sections_def versioned_image_def SHT_NULL_def
        SHF_COMPRESSED_def)
  have d: "dynamic versioned_image DT_VERNEEDNUM = Some [\<lparr>d_tag = DT_VERNEEDNUM, d_val = 1\<rparr>]"
    by (simp add: versioned_image_def)
  have sb: "Section_bool (versioned_sections ! 2)" "\<not> Section_bool nullSection"
    by (simp_all add: Section_bool_def versioned_sections_def nullSection_def
        SHT_GNU_verneed_def SHT_NULL_def)
  have v1: "version_section zlib versioned_image ''.gnu.version_r'' SHT_GNU_verneed DT_VERNEEDNUM
              verneed_loop \<lparr>versions = Map.empty, predecessors = Map.empty, files = Map.empty\<rparr>
            = Inr \<lparr>versions = [2 \<mapsto> ''GLIBC_2.2.5''], predecessors = Map.empty,
                   files = [''libc.so.6'' \<mapsto> [2]]\<rparr>"
    unfolding version_section_def versioned_sections_lookup Let_def
    by (simp add: sb l d io1 io2 n1)
  have v2: "version_section zlib versioned_image ''.gnu.version_d'' SHT_GNU_verdef DT_VERDEFNUM
              verdef_loop rv = Inr rv" for rv
    unfolding version_section_def versioned_sections_lookup Let_def
    by (simp add: sb)
  show ?thesis
    by (simp add: symbolVersions_def v1 v2)
qed

lemma unnumbered_sections_lookup:
  "getSection unnumbered_image ''.gnu.version_r'' SHT_GNU_verneed = versioned_sections ! 2"
  by (subst getSection.simps)
     (simp add: exact_match_def unnumbered_image_def versioned_sections_def
        load_namedSection_def nullSection_def)

lemma unnumbered_image_raises: "symbolVersions zlib unnumbered_image = Inl OutOfRange"
proof -
  have l: "getLinkedSection unnumbered_image (versioned_sections ! 2)
             = Inr (versioned_sections ! Suc 0)"
    by (simp add: getLinkedSection_def Section_bool_def versioned_sections_def
        unnumbered_image_def SHT_GNU_verneed_def SHT_NULL_def)
  have sb: "Section_bool (versioned_sections ! 2)"
    by (simp add: Section_bool_def versioned_sections_def SHT_GNU_verneed_def SHT_NULL_def)
  have d: "dynamic unnumbered_image DT_VERNEEDNUM = None" by (simp add: unnumbered_image_def)
  show ?thesis
    by (simp add: symbolVersions_def version_section_def unnumbered_sections_lookup sb l d)
qed

text \<open>
  C8 (amended) on the example image, in a build without zlib: index 2 with and without the
  hidden flag, the reserved indices, and an index that has no name; and an index on the
  image without \<^verbatim>\<open>DT_VERNEEDNUM\<close>.
\<close>

theorem symbolVersion_decoding_witness:
  "symbolVersion None versioned_image 2 = Inr (Some ''GLIBC_2.2.5'')
   \<and> symbolVersion None versioned_image 0x8002 = Inr (Some ''GLIBC_2.2.5'')
   \<and> symbolVersion None versioned_image 1 = Inr None
   \<and> symbolVersion None versioned_image 0x8000 = Inr None
   \<and> symbolVersion None versioned_image 3 = Inl OutOfRange
   \<and> symbolVersion None unnumbered_image 2 = Inl OutOfRange"
  using symbolVersion_decoding[of None versioned_image 2] versioned_image_table[of None]
        symbolVersion_decoding[of None versioned_image "0x8002"]
        symbolVersion_decoding[of None versioned_image 1]
        symbolVersion_decoding[of None versioned_image "0x8000"]
        symbolVersion_decoding[of None versioned_image 3]
        symbolVersion_decoding[of None unnumbered_image 2] unnumbered_image_raises[of None]
  by simp

text \<open>
  C8 as stated fails on an image that has the section \<^verbatim>\<open>.gnu.version_r\<close> and no
  \<^verbatim>\<open>DT_VERNEEDNUM\<close> entry: the reserved indices 0 and 1, with or without the hidden
  flag, raise \<^verbatim>\<open>std::out_of_range\<close> instead of giving no name.
\<close>

theorem symbolVersion_reserved_raises_counterexample:
  "symbolVersion None unnumbered_image 0 = Inl OutOfRange
   \<and> symbolVersion None unnumbered_image 1 = Inl OutOfRange
   \<and> symbolVersion None unnumbered_image 0x8001 = Inl OutOfRange"
  by (simp add: symbolVersion_def unnumbered_image_raises)
section \<open>Notes\<close>



























lemma getSegments_loaded:
  assumes "programHeaders obj = load_programHeaders std_sort hdrs" "sorts_by_vaddr std_sort"
  shows "getSegments obj t = std_sort (filter (\<lambda>h. p_type h = t) hdrs)"
proof (cases "filter (\<lambda>h. p_type h = t) hdrs = []")
  case True
  have "length (std_sort []) = 0" using sorts_by_vaddr_length[OF assms(2), of "[]"] by simp
  then have "std_sort [] = []" by simp
  then show ?thesis using True assms(1) by (simp add: getSegments_def load_programHeaders_group)
next
  case False
  then show ?thesis using assms(1) by (simp add: getSegments_def load_programHeaders_group)
qed


lemma image_of_notes_sel [simp]:
  "programHeaders (image_of_notes hdrs) = load_programHeaders (sort_key p_vaddr) hdrs"
  "io (image_of_notes hdrs) = note_bytes"
  by (simp_all add: image_of_notes_def)







text \<open>
  An empty note segment ahead of the segment that holds the note \<^verbatim>\<open>GNU\<close>:
  \<^verbatim>\<open>begin()\<close> raises and no note is visited.
\<close>

lemma Notes_empty_segment_raises:
  "Object_notes fuel (image_of_notes [note_segment 0 0x1000 0, note_segment 36 0x2000 20])
     = Some (Inl IoError)"
proof -
  let ?hdrs = "[note_segment 0 0x1000 0, note_segment 36 0x2000 20]"
  have g: "getSegments (image_of_notes ?hdrs) PT_NOTE = ?hdrs"
    by (simp add: getSegments_loaded[OF image_of_notes_sel(1) sorts_by_vaddr_sort_key])
       (simp add: note_segment_def PT_NOTE_def)
  have "readNhdr (view note_bytes 0 0) 0 = None"
    by (simp add: readNhdr_def readWord_def readInt_def view_def)
  then have "Notes_begin (image_of_notes ?hdrs) = Inl IoError"
    unfolding Notes_begin_def Notes_iterator_def g
    by (simp add: Let_def readNote_def startSection_def note_segment_def)
  then show ?thesis by (simp add: Object_notes_def)
qed



section \<open>Debug companion: the latch and the prelink compensation\<close>

lemma sel_set_debugLoaded [simp]:
  "debugLoaded (set_debugLoaded b obj) = b"
  "debugObject (set_debugLoaded b obj) = debugObject obj"
  "io_name (set_debugLoaded b obj) = io_name obj"
  "io (set_debugLoaded b obj) = io obj"
  "programHeaders (set_debugLoaded b obj) = programHeaders obj"
  "sectionHeaders (set_debugLoaded b obj) = sectionHeaders obj"
  "namedSection (set_debugLoaded b obj) = namedSection obj"
  by (cases obj; simp)+

lemma sel_set_debugObject [simp]:
  "debugLoaded (set_debugObject d obj) = debugLoaded obj"
  "debugObject (set_debugObject d obj) = d"
  by (cases obj; simp)+

lemma sel_Object_ctor [simp]:
  "debugLoaded (Object_ctor b obj) = b"
  "debugObject (Object_ctor b obj) = None"
  "programHeaders (Object_ctor b obj) = programHeaders obj"
  "sectionHeaders (Object_ctor b obj) = sectionHeaders obj"
  "namedSection (Object_ctor b obj) = namedSection obj"
  by (cases obj; simp)+

lemma sel_prelink_adjust [simp]:
  "sectionHeaders (prelink_adjust diff d) = map (add_sh_addr diff) (sectionHeaders d)"
  "programHeaders (prelink_adjust diff d) = map_option (map (add_p_vaddr diff)) \<circ> programHeaders d"
  "debugLoaded (prelink_adjust diff d) = debugLoaded d"
  by (cases d; simp)+




text \<open>
  The scan for the build ID ends whenever the iteration over all the notes does, within
  the same fuel.
\<close>

lemma find_build_id_returns:
  "notes_from fuel obj it \<noteq> None \<Longrightarrow> find_build_id fuel obj it \<noteq> None"
proof (induction fuel arbitrary: it)
  case 0
  then show ?case by simp
next
  case (Suc fuel)
  then show ?case
    by (auto split: sum.splits option.splits if_splits)
qed

lemma build_id_note_returns:
  "Object_notes fuel obj \<noteq> None \<Longrightarrow> build_id_note fuel obj \<noteq> None"
  using find_build_id_returns[of fuel obj]
  by (auto simp: Object_notes_def build_id_note_def split: sum.splits)







lemma prog_image_sel:
  "io_name prog_image = ''/opt/app/bin/prog''"
  "io prog_image = ''prog.dbg'' @ [CHR 0x00, CHR 0x00, CHR 0x00, CHR 0x00]"
  "programHeaders prog_image = Map.empty"
  "sectionHeaders prog_image
     = [nullSection, section_at ''.dynamic'' SHT_DYNAMIC 0x2000, debuglink_section]"
  "debugLoaded prog_image = False"
  "debugObject prog_image = None"
  by (simp_all add: prog_image_def)

lemma prog_image_sections:
  "exact_match (set_debugLoaded True prog_image) ''.dynamic'' SHT_NULL
     = Some (section_at ''.dynamic'' SHT_DYNAMIC 0x2000)"
  "exact_match (set_debugLoaded True prog_image) ''.gnu_debuglink'' SHT_PROGBITS
     = Some debuglink_section"
  by (simp_all add: exact_match_def prog_image_def load_namedSection_def section_at_def
      nullSection_def debuglink_section_def SHT_PROGBITS_def SHT_NULL_def)

lemma prog_debug_sections:
  "exact_match (Object_ctor True prog_debug) ''.dynamic'' SHT_NULL
     = Some (section_at ''.dynamic'' SHT_NOBITS 0x1000)"
  by (simp add: exact_match_def prog_debug_def load_namedSection_def section_at_def
      nullSection_def SHT_NULL_def)

lemma prog_debug_addresses:
  "addresses (Object_ctor True prog_debug) = ([0, 0x400, 0x1000], [0])"
  "addresses (prelink_adjust 0x1000 (Object_ctor True prog_debug))
     = ([0x1000, 0x1400, 0x2000], [0x1000])"
  by (simp_all add: addresses_def getSegments_def prog_debug_def load_programHeaders_group
      load_segment_def section_at_def nullSection_def add_sh_addr_def add_p_vaddr_def)

lemma prog_image_no_notes:
  "build_id_note (Suc 0) prog_image = Some (Inr None)"
  "build_id_note (Suc 0) (set_debugLoaded True prog_image) = Some (Inr None)"
  by (simp_all add: build_id_note_def Notes_begin_def Notes_end_def Notes_iterator_def
      getSegments_def prog_image_sel iterator_eq_def Let_def)

lemma prog_image_basename: "basename ''/opt/app/bin/prog'' = ''prog''"
  by (simp add: basename_def)


lemma prog_image_link:
  "readString_of (Section_io zlib (set_debugLoaded True prog_image) debuglink_section) 0
     = Inr ''prog.dbg''"
  by (simp add: readString_of_def readString_def Section_io_def view_def debuglink_section_def
      prog_image_sel SHF_COMPRESSED_def
      SHT_PROGBITS_def SHT_NULL_def)

lemma debug_link_found:
  "by_exec_name (debug_fs ''/usr/lib/debug/prog.dbg'') ''prog'' [''/usr/lib/debug''] = None"
  "by_debuglink zlib (debug_context False sink) (debug_fs ''/usr/lib/debug/prog.dbg'')
     (set_debugLoaded True prog_image) = Inr (Some (Object_ctor True prog_debug))"
proof -
  have sb: "Section_bool debuglink_section"
    by (simp add: Section_bool_def debuglink_section_def SHT_PROGBITS_def SHT_NULL_def)
  have c: "getDebugDirectories (debug_context False sink) = [''/usr/lib/debug'']"
    by (simp add: debug_context_def)
  show "by_exec_name (debug_fs ''/usr/lib/debug/prog.dbg'') ''prog'' [''/usr/lib/debug''] = None"
    by (simp add: debug_fs_def)
  show "by_debuglink zlib (debug_context False sink) (debug_fs ''/usr/lib/debug/prog.dbg'')
     (set_debugLoaded True prog_image) = Inr (Some (Object_ctor True prog_debug))"
    by (simp add: by_debuglink_def Let_def getSection_exact[OF prog_image_sections(2)] sb
        prog_image_link c getDebugImage_def load_debug_def debug_fs_def)
qed

lemma debug_name_found:
  "by_exec_name (debug_fs ''/usr/lib/debug/prog.debug'') ''prog'' [''/usr/lib/debug'']
     = Some (Object_ctor True prog_debug)"
  by (simp add: debug_fs_def load_debug_def)

lemma dynamic_addresses:
  "sh_addr (shdr (getSection (set_debugLoaded True prog_image) ''.dynamic'' SHT_NULL)) = 0x2000"
  "sh_addr (shdr (getSection (Object_ctor True prog_debug) ''.dynamic'' SHT_NULL)) = 0x1000"
  by (simp_all add: getSection_exact[OF prog_image_sections(1)]
      getSection_exact[OF prog_debug_sections] section_at_def)

lemma getDebug_by_link:
  "getDebug zlib (Suc 0) (debug_context False sink) (debug_fs ''/usr/lib/debug/prog.dbg'') prog_image
     = Some (compensate (debug_context False sink) (set_debugLoaded True prog_image)
               (Some (Object_ctor True prog_debug)))"
proof -
  have c: "getDebugDirectories (debug_context False sink) = [''/usr/lib/debug'']"
    "\<not> noExtDebug (debug_context False sink)"
    by (simp_all add: debug_context_def)
  show ?thesis
    by (simp add: getDebug_def discover_def prog_image_sel c prog_image_basename
        debug_link_found prog_image_no_notes del: by_exec_name.simps)
qed

lemma compensate_example:
  "compensate (debug_context False True) (set_debugLoaded True prog_image)
     (Some (Object_ctor True prog_debug))
   = (Inr (Some (prelink_adjust 0x1000 (Object_ctor True prog_debug))),
      set_debugObject (Some (prelink_adjust 0x1000 (Object_ctor True prog_debug)))
        (set_debugLoaded True prog_image))"
  "compensate (debug_context False False) (set_debugLoaded True prog_image)
     (Some (Object_ctor True prog_debug))
   = (Inr (Some (Object_ctor True prog_debug)),
      set_debugObject (Some (Object_ctor True prog_debug)) (set_debugLoaded True prog_image))"
  by (simp_all add: compensate_def Let_def dynamic_addresses debug_context_def)

text \<open>
  C1 on the example program, whose \<^verbatim>\<open>.dynamic\<close> section is at \<open>0x2000\<close>, with a
  companion whose \<^verbatim>\<open>.dynamic\<close> section is at \<open>0x1000\<close>: the companion found by
  its debug link without a log sink in the context, and the companion found by the name of
  the executable, are returned with their addresses as loaded; the companion found by its
  debug link with a log sink has every address increased by \<open>0x1000\<close>.
\<close>

theorem getDebug_compensation_skipped:
  "sh_addr (shdr (getSection prog_image ''.dynamic'' SHT_NULL)) = 0x2000
   \<and> sh_addr (shdr (getSection (Object_ctor True prog_debug) ''.dynamic'' SHT_NULL)) = 0x1000
   \<and> addresses (Object_ctor True prog_debug) = ([0, 0x400, 0x1000], [0])
   \<and> returned_addresses (getDebug None 1 (debug_context False False)
         (debug_fs ''/usr/lib/debug/prog.dbg'') prog_image)
       = Some (Inr (Some ([0, 0x400, 0x1000], [0])))
   \<and> returned_addresses (getDebug None 1 (debug_context False True)
         (debug_fs ''/usr/lib/debug/prog.debug'') prog_image)
       = Some (Inr (Some ([0, 0x400, 0x1000], [0])))
   \<and> returned_addresses (getDebug None 1 (debug_context False True)
         (debug_fs ''/usr/lib/debug/prog.dbg'') prog_image)
       = Some (Inr (Some ([0x1000, 0x1400, 0x2000], [0x1000])))"
proof -
  have e: "exact_match prog_image ''.dynamic'' SHT_NULL
     = Some (section_at ''.dynamic'' SHT_DYNAMIC 0x2000)"
    by (simp add: exact_match_def prog_image_def load_namedSection_def section_at_def
        nullSection_def debuglink_section_def SHT_NULL_def)
  have a: "sh_addr (shdr (getSection prog_image ''.dynamic'' SHT_NULL)) = 0x2000"
    by (simp add: getSection_exact[OF e] section_at_def)
  have c: "getDebugDirectories (debug_context False True) = [''/usr/lib/debug'']"
    "\<not> noExtDebug (debug_context False True)"
    by (simp_all add: debug_context_def)
  have n: "getDebug None (Suc 0) (debug_context False True) (debug_fs ''/usr/lib/debug/prog.debug'') prog_image
     = Some (Inr (Some (Object_ctor True prog_debug)),
             set_debugObject (Some (Object_ctor True prog_debug)) (set_debugLoaded True prog_image))"
    by (simp add: getDebug_def discover_def prog_image_sel c prog_image_basename debug_name_found
        del: by_exec_name.simps)
  show ?thesis
    using a dynamic_addresses(2) prog_debug_addresses
    by (simp add: returned_addresses_def getDebug_by_link[simplified] compensate_example n)
qed






end
